theory Spec2Isabelle
  imports Main "HOL-Library.Sublist"
begin

unbundle bit_operations_syntax

section \<open>Numbers and strings of the source language\<close>

text \<open>
  The sources are TypeScript and Civet (which compiles to TypeScript). Their numbers are
  modelled as \<open>int\<close>; the bitwise operators convert their operands to 32-bit signed
  integers first, which is written out in \<open>to_int32\<close>. Strings are \<open>string\<close>, a list
  of 8-bit characters; \<open>charCodeAt\<close> is \<open>of_char\<close>.
\<close>

definition to_int32 :: "int \<Rightarrow> int" where
  "to_int32 x = signed_take_bit 31 x"

definition js_and :: "int \<Rightarrow> int \<Rightarrow> int" where
  "js_and a b = to_int32 a AND to_int32 b"

definition js_or :: "int \<Rightarrow> int \<Rightarrow> int" where
  "js_or a b = to_int32 a OR to_int32 b"

definition js_shl :: "int \<Rightarrow> int \<Rightarrow> int" where
  "js_shl a b = to_int32 (push_bit (nat (b mod 32)) (to_int32 a))"

definition js_sar :: "int \<Rightarrow> int \<Rightarrow> int" where
  "js_sar a b = drop_bit (nat (b mod 32)) (to_int32 a)"

datatype js_error =
    EarlyEndOfMapping
  | InvalidMappingCharacter char
  | UnknownSourceMapEntry "int list"
  | TypeError
  | Thrown string

section \<open>The VLQ codec (sourcemap.civet)\<close>

definition VLQ_SHIFT :: int where
  "VLQ_SHIFT = 5"

definition VLQ_CONTINUATION_BIT :: int where
  "VLQ_CONTINUATION_BIT = js_shl 1 VLQ_SHIFT"

definition VLQ_VALUE_MASK :: int where
  "VLQ_VALUE_MASK = VLQ_CONTINUATION_BIT - 1"

definition BASE64_CHARS :: string where
  "BASE64_CHARS = ''ABCDEFGHIJKLMNOPQRSTUVWXYZabcdefghijklmnopqrstuvwxyz0123456789+/''"

text \<open>
  The loop of \<open>encodeVlq\<close>: it runs while \<open>valueToEncode\<close> is non-zero or nothing has
  been written. On a negative \<open>valueToEncode\<close> the arithmetic shift never reaches zero
  and the loop does not end, so the result is an option.
\<close>

partial_function (option) encodeVlq_loop :: "int \<Rightarrow> string \<Rightarrow> string option" where
  "encodeVlq_loop valueToEncode answer =
     (if valueToEncode \<noteq> 0 \<or> answer = [] then
        let nextChunk = js_and valueToEncode VLQ_VALUE_MASK;
            valueToEncode' = js_sar valueToEncode VLQ_SHIFT;
            nextChunk' = (if valueToEncode' \<noteq> 0
                          then js_or nextChunk VLQ_CONTINUATION_BIT else nextChunk)
        in encodeVlq_loop valueToEncode' (answer @ [BASE64_CHARS ! nat nextChunk'])
      else Some answer)"

declare encodeVlq_loop.simps [code]

definition encodeVlq :: "int \<Rightarrow> string option" where
  "encodeVlq v =
     (let signBit = (if v < 0 then 1 else 0);
          valueToEncode = js_shl \<bar>v\<bar> 1 + signBit
      in encodeVlq_loop valueToEncode [])"

definition vlqChars :: string where
  "vlqChars = ''ABCDEFGHIJKLMNOPQRSTUVWXYZabcdefghijklmnopqrstuvwxyz0123456789+/''"

definition vlqTable :: "int list" where
  "vlqTable =
     fold (\<lambda>i t. t[of_char (vlqChars ! i) := int i]) [0..<length vlqChars]
       (replicate 128 0xFF)"

text \<open>
  The inner loop of \<open>decodeVLQ\<close> reads one group of characters, up to the first one
  without the continuation bit; the position \<open>i\<close> is the remaining input.
\<close>

fun decodeVLQ_group :: "int \<Rightarrow> int \<Rightarrow> string \<Rightarrow> js_error + (int \<times> string)" where
  "decodeVLQ_group shift vlq [] = Inl EarlyEndOfMapping"
| "decodeVLQ_group shift vlq (ch # rest) =
     (let c = (of_char ch :: int) in
      if js_and c 0x7F \<noteq> c then Inl (InvalidMappingCharacter ch)
      else
        let index = vlqTable ! nat (js_and c 0x7F) in
        if index = 0xFF then Inl (InvalidMappingCharacter ch)
        else
          let vlq' = js_or vlq (js_shl (js_and index 31) shift);
              shift' = shift + 5
          in if js_and index 32 = 0 then Inr (vlq', rest)
             else decodeVLQ_group shift' vlq' rest)"

lemma decodeVLQ_group_shorter:
  "decodeVLQ_group shift vlq s = Inr (v, rest) \<Longrightarrow> length rest < length s"
proof (induction s arbitrary: shift vlq)
  case Nil
  then show ?case by simp
next
  case (Cons ch cs)
  show ?case
  proof (cases "decodeVLQ_group (shift + 5)
      (js_or vlq (js_shl (js_and (vlqTable ! nat (js_and (of_char ch) 0x7F)) 31) shift)) cs
      = Inr (v, rest)")
    case True
    from Cons.IH [OF True] show ?thesis by simp
  next
    case False
    with Cons.prems show ?thesis
      by (simp add: Let_def split: if_splits)
  qed
qed

function decodeVLQ_loop :: "string \<Rightarrow> int list \<Rightarrow> js_error + int list" where
  "decodeVLQ_loop [] result = Inr result"
| "decodeVLQ_loop (ch # cs) result =
     (case decodeVLQ_group 0 0 (ch # cs) of
        Inl e \<Rightarrow> Inl e
      | Inr (vlq, rest) \<Rightarrow>
          let v = (if js_and vlq 1 \<noteq> 0 then - js_sar vlq 1 else js_sar vlq 1)
          in decodeVLQ_loop rest (result @ [v]))"
  by pat_completeness auto
termination
  by (relation "measure (\<lambda>(s, r). length s)")
     (auto dest!: decodeVLQ_group_shorter simp del: decodeVLQ_group.simps)

definition decodeVLQ :: "string \<Rightarrow> js_error + int list" where
  "decodeVLQ mapping = decodeVLQ_loop mapping []"


section \<open>Location table (sourcemap.civet)\<close>

definition CR :: char where
  "CR = CHR 0x0D"

definition LF :: char where
  "LF = CHR 0x0A"

text \<open>
  One match of the sticky expression \<open>/([^\r\n]*)(\r\n|\r|\n|$)/y\<close> at the start of the
  remaining input: the length of the match. It matches everywhere, the empty string only
  at the end of the input.
\<close>

definition linesRe_match :: "string \<Rightarrow> nat" where
  "linesRe_match s =
     (let body = takeWhile (\<lambda>c. c \<noteq> CR \<and> c \<noteq> LF) s;
          rest = dropWhile (\<lambda>c. c \<noteq> CR \<and> c \<noteq> LF) s
      in length body +
         (case rest of
            [] \<Rightarrow> 0
          | c # cs \<Rightarrow> (if c = CR \<and> cs \<noteq> [] \<and> hd cs = LF then 2 else 1)))"

definition linesRe_exec :: "string \<Rightarrow> nat \<Rightarrow> nat option" where
  "linesRe_exec input lastIndex =
     (if length input < lastIndex then None
      else Some (linesRe_match (drop lastIndex input)))"

lemma linesRe_match_positive: "s \<noteq> [] \<Longrightarrow> 0 < linesRe_match s"
  by (cases s) (auto simp: linesRe_match_def Let_def split: list.splits)

lemma linesRe_match_bounded: "linesRe_match s \<le> length s"
proof -
  let ?P = "\<lambda>c. c \<noteq> CR \<and> c \<noteq> LF"
  have len: "length s = length (takeWhile ?P s) + length (dropWhile ?P s)"
    by (metis length_append takeWhile_dropWhile_id)
  show ?thesis
  proof (cases "dropWhile ?P s")
    case Nil
    then show ?thesis
      using len unfolding linesRe_match_def Let_def by (simp del: dropWhile_eq_Nil_conv)
  next
    case (Cons c cs)
    then show ?thesis
      using len unfolding linesRe_match_def Let_def by (cases cs) simp_all
  qed
qed

function locationTable_loop :: "string \<Rightarrow> nat \<Rightarrow> nat list \<Rightarrow> nat list" where
  "locationTable_loop input pos lines =
     (case linesRe_exec input pos of
        None \<Rightarrow> lines
      | Some n \<Rightarrow>
          let pos' = pos + n; lines' = lines @ [pos']
          in if pos' = length input then lines'
             else locationTable_loop input pos' lines')"
  by pat_completeness auto
termination
proof (relation "measure (\<lambda>(input, pos, lines). length input - pos)")
  show "wf (measure (\<lambda>(input, pos, lines). length input - pos))"
    by simp
next
  fix input :: string and pos :: nat and lines :: "nat list" and n pos' lines'
  assume exec: "linesRe_exec input pos = Some n"
    and pos': "pos' = pos + n"
    and more: "pos' \<noteq> length input"
  from exec have le: "pos \<le> length input" and n: "n = linesRe_match (drop pos input)"
    by (auto simp: linesRe_exec_def split: if_splits)
  have bound: "n \<le> length input - pos"
    using linesRe_match_bounded [of "drop pos input"] by (simp add: n)
  have "pos < length input"
  proof (rule ccontr)
    assume "\<not> pos < length input"
    then have "drop pos input = []" by simp
    then have "n = 0" using bound le by simp
    with le \<open>\<not> pos < length input\<close> pos' more show False by simp
  qed
  then have "drop pos input \<noteq> []" by simp
  then have "0 < n" unfolding n by (rule linesRe_match_positive)
  then show "((input, pos', lines'), (input, pos, lines))
      \<in> measure (\<lambda>(input, pos, lines). length input - pos)"
    using pos' \<open>pos < length input\<close> by simp
qed

definition locationTable :: "string \<Rightarrow> nat list" where
  "locationTable input = locationTable_loop input 0 []"

function lookupLineColumn_loop :: "nat list \<Rightarrow> int \<Rightarrow> nat \<Rightarrow> int \<Rightarrow> nat \<times> int" where
  "lookupLineColumn_loop table pos l prevEnd =
     (if l < length table \<and> int (table ! l) \<le> pos
      then lookupLineColumn_loop table pos (l + 1) (int (table ! l))
      else (l, pos - prevEnd))"
  by pat_completeness auto
termination
  by (relation "measure (\<lambda>(table, pos, l, prevEnd). length table - l)") auto

definition lookupLineColumn :: "nat list \<Rightarrow> int \<Rightarrow> nat \<times> int" where
  "lookupLineColumn table pos = lookupLineColumn_loop table pos 0 0"


section \<open>Source-map builder (sourcemap.civet)\<close>

text \<open>
  \<open>ResolvedSourceMapEntry\<close> is the union of the tuples of length 1, 4 and 5; the
  tests \<open>entry.length is 4\<close> of the source are case distinctions on the constructor.
\<close>

datatype ResolvedSourceMapEntry =
    Seg1 int
  | Seg4 int int int int
  | Seg5 int int int int int

type_synonym SourceMapLine = "ResolvedSourceMapEntry list"

type_synonym SourceMapLines = "SourceMapLine list"

text \<open>
  The field \<open>lines\<close> of a \<open>SourceMap\<close> is written by index: \<open>@lines[@line] = []\<close> past
  the end of the array extends it and leaves holes below the index. The field is a list
  of optional lines, \<open>None\<close> being a hole: reading a hole gives \<open>undefined\<close>. The arrays
  that \<open>parseWithLines\<close> and \<open>composeLines\<close> build with \<open>map\<close> over the parts of a
  string have no holes.
\<close>

type_synonym SparseSourceMapLines = "SourceMapLine option list"

fun entry_0 :: "ResolvedSourceMapEntry \<Rightarrow> int" where
  "entry_0 (Seg1 d) = d"
| "entry_0 (Seg4 d f l c) = d"
| "entry_0 (Seg5 d f l c n) = d"

record SourceMapJSON =
  json_version :: nat
  json_file :: string
  json_sources :: "string list"
  json_mappings :: string
  json_names :: "string list"
  json_sourcesContent :: "string list"

text \<open>
  The library functions the module calls: \<open>JSON.stringify\<close>, the base64 encoding of
  \<open>Buffer\<close> or \<open>btoa\<close>, and \<open>JSON.parse\<close> of the decoded \<open>Buffer\<close>, which may throw.
\<close>

record runtime =
  rt_stringify :: "SourceMapJSON \<Rightarrow> string"
  rt_base64Encode :: "string \<Rightarrow> string"
  rt_parse_base64 :: "string \<Rightarrow> js_error + SourceMapJSON"

record SourceMap =
  sm_source :: string
  sm_lines :: SparseSourceMapLines
  sm_line :: nat
  sm_colOffset :: int
  sm_srcLine :: int
  sm_srcColumn :: int
  sm_srcTable :: "nat list"

definition new_SourceMap :: "string \<Rightarrow> SourceMap" where
  "new_SourceMap source =
     \<lparr> sm_source = source, sm_lines = [Some []], sm_line = 0, sm_colOffset = 0,
       sm_srcLine = 0, sm_srcColumn = 0, sm_srcTable = locationTable source \<rparr>"

fun js_join :: "string \<Rightarrow> string list \<Rightarrow> string" where
  "js_join sep [] = []"
| "js_join sep [x] = x"
| "js_join sep (x # y # ys) = x @ sep @ js_join sep (y # ys)"

text \<open>
  \<open>renderMappings\<close> carries \<open>lastSourceLine\<close> and \<open>lastSourceColumn\<close> over all
  entries of all lines. An entry of length 4 is written with four numbers, every other
  entry with its first number only. The lines are visited by index; at a hole the inner
  loop reads the length of \<open>undefined\<close>, a TypeError. The result is \<open>None\<close> where
  \<open>encodeVlq\<close> does not return.
\<close>

fun renderMappings_entry ::
  "ResolvedSourceMapEntry \<Rightarrow> int \<times> int \<Rightarrow> (string \<times> (int \<times> int)) option" where
  "renderMappings_entry (Seg4 d sourceFileIndex srcLine srcCol) (lastSourceLine, lastSourceColumn) =
     (let lineDelta = srcLine - lastSourceLine;
          colDelta = srcCol - lastSourceColumn
      in case encodeVlq d of None \<Rightarrow> None | Some a \<Rightarrow>
         (case encodeVlq sourceFileIndex of None \<Rightarrow> None | Some b \<Rightarrow>
         (case encodeVlq lineDelta of None \<Rightarrow> None | Some c \<Rightarrow>
         (case encodeVlq colDelta of None \<Rightarrow> None | Some e \<Rightarrow>
            Some (a @ b @ c @ e, (srcLine, srcCol))))))"
| "renderMappings_entry entry prev =
     (case encodeVlq (entry_0 entry) of None \<Rightarrow> None | Some a \<Rightarrow> Some (a, prev))"

fun renderMappings_line ::
  "SourceMapLine \<Rightarrow> int \<times> int \<Rightarrow> (string list \<times> (int \<times> int)) option" where
  "renderMappings_line [] prev = Some ([], prev)"
| "renderMappings_line (entry # entries) prev =
     (case renderMappings_entry entry prev of
        None \<Rightarrow> None
      | Some (s, prev') \<Rightarrow>
          (case renderMappings_line entries prev' of
             None \<Rightarrow> None
           | Some (ss, prev'') \<Rightarrow> Some (s # ss, prev'')))"

fun renderMappings_lines ::
  "SparseSourceMapLines \<Rightarrow> int \<times> int \<Rightarrow> (js_error + string list) option" where
  "renderMappings_lines [] prev = Some (Inr [])"
| "renderMappings_lines (None # rest) prev = Some (Inl TypeError)"
| "renderMappings_lines (Some line # rest) prev =
     (case renderMappings_line line prev of
        None \<Rightarrow> None
      | Some (ss, prev') \<Rightarrow>
          (case renderMappings_lines rest prev' of
             None \<Rightarrow> None
           | Some (Inl e) \<Rightarrow> Some (Inl e)
           | Some (Inr rs) \<Rightarrow> Some (Inr (js_join '','' ss # rs))))"

definition renderMappings :: "SourceMap \<Rightarrow> (js_error + string) option" where
  "renderMappings this =
     (case renderMappings_lines (sm_lines this) (0, 0) of
        None \<Rightarrow> None
      | Some (Inl e) \<Rightarrow> Some (Inl e)
      | Some (Inr rs) \<Rightarrow> Some (Inr (js_join '';'' rs)))"

definition json :: "SourceMap \<Rightarrow> string \<Rightarrow> string \<Rightarrow> (js_error + SourceMapJSON) option" where
  "json this srcFileName outFileName =
     (case renderMappings this of
        None \<Rightarrow> None
      | Some (Inl e) \<Rightarrow> Some (Inl e)
      | Some (Inr m) \<Rightarrow>
          Some (Inr \<lparr> json_version = 3, json_file = outFileName, json_sources = [srcFileName],
                      json_mappings = m, json_names = [],
                      json_sourcesContent = [sm_source this] \<rparr>))"

definition comment ::
  "runtime \<Rightarrow> SourceMap \<Rightarrow> string \<Rightarrow> string \<Rightarrow> (js_error + string) option" where
  "comment rt this srcFileName outFileName =
     (case json this srcFileName outFileName of
        None \<Rightarrow> None
      | Some (Inl e) \<Rightarrow> Some (Inl e)
      | Some (Inr j) \<Rightarrow>
          Some (Inr (''//'' @ ''#'' @ '' sourceMappingURL=data:application/json;base64,''
                     @ rt_base64Encode rt (rt_stringify rt j))))"

text \<open>\<open>outputStr.split(/\r?\n|\r/)\<close>.\<close>

fun split_EOL :: "string \<Rightarrow> string list" where
  "split_EOL [] = [[]]"
| "split_EOL (c # cs) =
     (if c = CR \<and> cs \<noteq> [] \<and> hd cs = LF then [] # split_EOL (tl cs)
      else if c = LF \<or> c = CR then [] # split_EOL cs
      else (case split_EOL cs of
              [] \<Rightarrow> [[c]]
            | x # xs \<Rightarrow> (c # x) # xs))"

text \<open>
  \<open>@lines[@line] = []\<close> writes the line at the index; past the end of the array it
  extends the array to the index, with holes in between. \<open>@lines[@line].push\<close> is a
  TypeError when there is no line at the index, because the index is past the end or at
  a hole.
\<close>

definition set_line ::
  "SparseSourceMapLines \<Rightarrow> nat \<Rightarrow> SourceMapLine \<Rightarrow> SparseSourceMapLines" where
  "set_line ls n v =
     (if n < length ls then ls[n := Some v]
      else ls @ replicate (n - length ls) None @ [Some v])"

definition push_entry ::
  "SparseSourceMapLines \<Rightarrow> nat \<Rightarrow> ResolvedSourceMapEntry
   \<Rightarrow> js_error + SparseSourceMapLines" where
  "push_entry ls n e =
     (if n < length ls
      then (case ls ! n of
              None \<Rightarrow> Inl TypeError
            | Some line \<Rightarrow> Inr (ls[n := Some (line @ [e])]))
      else Inl TypeError)"

text \<open>
  The loop of \<open>updateSourceMap\<close> over the lines of the output, with index \<open>i\<close>. The
  locals \<open>srcLine\<close> and \<open>srcCol\<close> are \<open>src\<close>; they are set exactly when \<open>inputPos\<close> is
  given.
\<close>

fun updateSourceMap_loop ::
  "string list \<Rightarrow> int \<Rightarrow> int \<Rightarrow> (int \<times> int) option \<Rightarrow> SourceMap \<Rightarrow> js_error + SourceMap" where
  "updateSourceMap_loop [] i colOffset src this = Inr this"
| "updateSourceMap_loop (line # rest) i colOffset src this =
     (let this1 =
            (if i > 0
             then this\<lparr> sm_line := sm_line this + 1,
                        sm_srcLine := sm_srcLine this + 1,
                        sm_colOffset := 0,
                        sm_lines := set_line (sm_lines this) (sm_line this + 1) [],
                        sm_srcColumn := colOffset \<rparr>
             else this);
          src1 =
            (if i > 0 then map_option (\<lambda>(srcLine, srcCol). (srcLine, colOffset)) src else src);
          l = sm_colOffset this1;
          this2 = this1\<lparr> sm_colOffset := int (length line),
                         sm_srcColumn := sm_srcColumn this1 + int (length line) \<rparr>;
          pushed =
            (case src1 of
               Some (srcLine, srcCol) \<Rightarrow>
                 push_entry (sm_lines this2) (sm_line this2) (Seg4 l 0 (srcLine + i) srcCol)
             | None \<Rightarrow>
                 if l \<noteq> 0 then push_entry (sm_lines this2) (sm_line this2) (Seg1 l)
                 else Inr (sm_lines this2))
      in case pushed of
           Inl e \<Rightarrow> Inl e
         | Inr ls \<Rightarrow> updateSourceMap_loop rest (i + 1) colOffset src1 (this2\<lparr> sm_lines := ls \<rparr>))"

definition updateSourceMap ::
  "string \<Rightarrow> int option \<Rightarrow> int \<Rightarrow> SourceMap \<Rightarrow> js_error + SourceMap" where
  "updateSourceMap outputStr inputPos colOffset this =
     (let outLines = split_EOL outputStr
      in case inputPos of
           Some p \<Rightarrow>
             (let (srcLine, srcCol0) = lookupLineColumn (sm_srcTable this) p;
                  srcCol = srcCol0 + colOffset;
                  this' = this\<lparr> sm_srcLine := int srcLine, sm_srcColumn := srcCol \<rparr>
              in updateSourceMap_loop outLines 0 colOffset (Some (int srcLine, srcCol)) this')
         | None \<Rightarrow> updateSourceMap_loop outLines 0 colOffset None this)"

section \<open>Parsing, remapping and composition (sourcemap.civet)\<close>

text \<open>\<open>String.prototype.split\<close> on a one-character separator.\<close>

fun split_on :: "char \<Rightarrow> string \<Rightarrow> string list" where
  "split_on sep [] = [[]]"
| "split_on sep (c # cs) =
     (if c = sep then [] # split_on sep cs
      else (case split_on sep cs of
              [] \<Rightarrow> [[c]]
            | x # xs \<Rightarrow> (c # x) # xs))"

text \<open>
  One entry of \<open>parseWithLines\<close>: the running \<open>sourceLine\<close> and \<open>sourceColumn\<close> are the
  state, shared by all lines.
\<close>

definition parseWithLines_entry ::
  "string \<Rightarrow> int \<times> int \<Rightarrow> js_error + (ResolvedSourceMapEntry \<times> (int \<times> int))" where
  "parseWithLines_entry entry st =
     (case decodeVLQ entry of
        Inl e \<Rightarrow> Inl e
      | Inr result \<Rightarrow>
          (case result of
             [a] \<Rightarrow> Inr (Seg1 a, st)
           | [a, b, c, d] \<Rightarrow>
               (let sourceLine = fst st + c; sourceColumn = snd st + d
                in Inr (Seg4 a b sourceLine sourceColumn, (sourceLine, sourceColumn)))
           | [a, b, c, d, n] \<Rightarrow>
               (let sourceLine = fst st + c; sourceColumn = snd st + d
                in Inr (Seg5 a b sourceLine sourceColumn n, (sourceLine, sourceColumn)))
           | _ \<Rightarrow> Inl (UnknownSourceMapEntry result)))"

fun parseWithLines_line ::
  "string list \<Rightarrow> int \<times> int \<Rightarrow> js_error + (SourceMapLine \<times> (int \<times> int))" where
  "parseWithLines_line [] st = Inr ([], st)"
| "parseWithLines_line (entry # entries) st =
     (case parseWithLines_entry entry st of
        Inl e \<Rightarrow> Inl e
      | Inr (r, st') \<Rightarrow>
          (case parseWithLines_line entries st' of
             Inl e \<Rightarrow> Inl e
           | Inr (rs, st'') \<Rightarrow> Inr (r # rs, st'')))"

fun parseWithLines_lines :: "string list \<Rightarrow> int \<times> int \<Rightarrow> js_error + SourceMapLines" where
  "parseWithLines_lines [] st = Inr []"
| "parseWithLines_lines (line # rest) st =
     (case (if length line = 0 then Inr ([], st)
            else parseWithLines_line (split_on CHR '','' line) st) of
        Inl e \<Rightarrow> Inl e
      | Inr (l, st') \<Rightarrow>
          (case parseWithLines_lines rest st' of
             Inl e \<Rightarrow> Inl e
           | Inr ls \<Rightarrow> Inr (l # ls)))"

definition parseWithLines ::
  "runtime \<Rightarrow> string \<Rightarrow> js_error + (SourceMapJSON \<times> SourceMapLines)" where
  "parseWithLines rt base64encodedJSONstr =
     (case rt_parse_base64 rt base64encodedJSONstr of
        Inl e \<Rightarrow> Inl e
      | Inr j \<Rightarrow>
          (case parseWithLines_lines (split_on CHR '';'' (json_mappings j)) (0, 0) of
             Inl e \<Rightarrow> Inl e
           | Inr lines \<Rightarrow> Inr (j, lines)))"

text \<open>
  The loop of \<open>remapPosition\<close> over the entries of one line; it returns \<open>lastMapping\<close>
  and \<open>lastMappingPosition\<close>.
\<close>

fun remapPosition_loop ::
  "SourceMapLine \<Rightarrow> int \<Rightarrow> int \<Rightarrow> ResolvedSourceMapEntry option \<Rightarrow> int
   \<Rightarrow> ResolvedSourceMapEntry option \<times> int" where
  "remapPosition_loop [] character p lastMapping lastMappingPosition =
     (lastMapping, lastMappingPosition)"
| "remapPosition_loop (mapping # rest) character p lastMapping lastMappingPosition =
     (let p' = p + entry_0 mapping;
          (lastMapping', lastMappingPosition') =
            (case mapping of
               Seg4 d f l c \<Rightarrow> (Some mapping, p')
             | _ \<Rightarrow> (lastMapping, lastMappingPosition))
      in if p' \<ge> character then (lastMapping', lastMappingPosition')
         else remapPosition_loop rest character p' lastMapping' lastMappingPosition')"

text \<open>
  \<open>sourcemapLines[line]\<close> is undefined outside the array. \<open>lastMapping\<close> is only ever
  set to an entry of length 4.
\<close>

definition remapPosition :: "int \<times> int \<Rightarrow> SourceMapLines \<Rightarrow> (int \<times> int) option" where
  "remapPosition position sourcemapLines =
     (let (line, character) = position
      in if line < 0 \<or> int (length sourcemapLines) \<le> line then None
         else
           let textLine = sourcemapLines ! nat line
           in if length textLine = 0 then None
              else
                let (lastMapping, lastMappingPosition) =
                      remapPosition_loop textLine character 0 None 0
                in if character - lastMappingPosition \<noteq> 0 then None
                   else (case lastMapping of
                           Some (Seg4 d f srcLine srcCol) \<Rightarrow> Some (srcLine, srcCol)
                         | _ \<Rightarrow> None))"

definition composeLines_entry ::
  "SourceMapLines \<Rightarrow> ResolvedSourceMapEntry \<Rightarrow> ResolvedSourceMapEntry" where
  "composeLines_entry upstreamMapping entry =
     (case entry of
        Seg1 d \<Rightarrow> entry
      | Seg4 colDelta sourceFileIndex srcLine srcCol \<Rightarrow>
          (case remapPosition (srcLine, srcCol) upstreamMapping of
             None \<Rightarrow> Seg1 colDelta
           | Some (upstreamLine, upstreamCol) \<Rightarrow>
               Seg4 colDelta sourceFileIndex upstreamLine upstreamCol)
      | Seg5 colDelta sourceFileIndex srcLine srcCol n \<Rightarrow>
          (case remapPosition (srcLine, srcCol) upstreamMapping of
             None \<Rightarrow> Seg1 colDelta
           | Some (upstreamLine, upstreamCol) \<Rightarrow>
               Seg5 colDelta sourceFileIndex upstreamLine upstreamCol n))"

definition composeLines :: "SourceMapLines \<Rightarrow> SourceMapLines \<Rightarrow> SourceMapLines" where
  "composeLines upstreamMapping lines = map (map (composeLines_entry upstreamMapping)) lines"

text \<open>
  The expression \<open>smRegexp\<close>:
  \<^verbatim>\<open>/(?:\r?\n|\r)\/\/# sourceMappingURL=data:application\/json;(?:charset=[^;]*;)?base64,([+a-zA-Z0-9\/]*=?=?)(?:\s*)$/\<close>
  \<open>smRegexp_at\<close> matches it at the start of its argument and returns the first group;
  no part of the expression can match in two ways, so the greedy match is the only one.
  \<open>smRegexp_exec\<close> finds the leftmost match and returns the text before it with the
  group. The match runs to the end of the input.
\<close>

definition strip_prefix :: "string \<Rightarrow> string \<Rightarrow> string option" where
  "strip_prefix p s = (if take (length p) s = p then Some (drop (length p) s) else None)"

definition is_payload_char :: "char \<Rightarrow> bool" where
  "is_payload_char c =
     (c = CHR ''+'' \<or> c = CHR ''/''
      \<or> (of_char CHR ''a'' \<le> (of_char c :: nat) \<and> (of_char c :: nat) \<le> of_char CHR ''z'')
      \<or> (of_char CHR ''A'' \<le> (of_char c :: nat) \<and> (of_char c :: nat) \<le> of_char CHR ''Z'')
      \<or> (of_char CHR ''0'' \<le> (of_char c :: nat) \<and> (of_char c :: nat) \<le> of_char CHR ''9''))"

text \<open>The class \<open>\s\<close>, as far as it lies in the 8-bit characters.\<close>

definition is_space :: "char \<Rightarrow> bool" where
  "is_space c = ((of_char c :: nat) \<in> {9, 10, 11, 12, 13, 32, 160})"

definition strip_newline :: "string \<Rightarrow> string option" where
  "strip_newline s =
     (case s of
        [] \<Rightarrow> None
      | c # cs \<Rightarrow>
          if c = CR \<and> cs \<noteq> [] \<and> hd cs = LF then Some (tl cs)
          else if c = LF \<or> c = CR then Some cs
          else None)"

definition strip_charset :: "string \<Rightarrow> string option" where
  "strip_charset s =
     (case strip_prefix ''charset='' s of
        None \<Rightarrow> Some s
      | Some r \<Rightarrow>
          (case dropWhile (\<lambda>c. c \<noteq> CHR '';'') r of
             [] \<Rightarrow> None
           | c # cs \<Rightarrow> Some cs))"

definition strip_equals :: "string \<Rightarrow> string \<times> string" where
  "strip_equals s = (if s \<noteq> [] \<and> hd s = CHR ''='' then ([hd s], tl s) else ([], s))"

definition match_payload :: "string \<Rightarrow> string option" where
  "match_payload s =
     (let body = takeWhile is_payload_char s;
          (eq1, r1) = strip_equals (dropWhile is_payload_char s);
          (eq2, r2) = strip_equals r1
      in if list_all is_space r2 then Some (body @ eq1 @ eq2) else None)"

definition smRegexp_at :: "string \<Rightarrow> string option" where
  "smRegexp_at s =
     (case strip_newline s of
        None \<Rightarrow> None
      | Some s1 \<Rightarrow>
          (case strip_prefix ''//# sourceMappingURL=data:application/json;'' s1 of
             None \<Rightarrow> None
           | Some s2 \<Rightarrow>
               (case strip_charset s2 of
                  None \<Rightarrow> None
                | Some s3 \<Rightarrow>
                    (case strip_prefix ''base64,'' s3 of
                       None \<Rightarrow> None
                     | Some s4 \<Rightarrow> match_payload s4))))"

fun smRegexp_exec :: "string \<Rightarrow> (string \<times> string) option" where
  "smRegexp_exec [] = None"
| "smRegexp_exec (c # cs) =
     (case smRegexp_at (c # cs) of
        Some sm \<Rightarrow> Some ([], sm)
      | None \<Rightarrow>
          (case smRegexp_exec cs of
             None \<Rightarrow> None
           | Some (front, sm) \<Rightarrow> Some (c # front, sm)))"

text \<open>
  \<open>composeLines\<close> hands the upstream array to \<open>remapPosition\<close>, which reads it only
  as \<open>sourcemapLines[line]\<close> under the test \<open>!textLine?.length\<close>. The test holds for
  \<open>undefined\<close> as for an empty line, so the lines of the upstream map are read there
  with the empty line at each hole.
\<close>

definition lines_for_lookup :: "SparseSourceMapLines \<Rightarrow> SourceMapLines" where
  "lines_for_lookup ls = map (\<lambda>l. case l of None \<Rightarrow> [] | Some line \<Rightarrow> line) ls"

text \<open>
  \<open>SourceMap.remap\<close> changes \<open>upstreamMap\<close> in place, so the map is returned with the
  code. The outer option is \<open>None\<close> where \<open>renderMappings\<close> does not return; a TypeError
  of \<open>renderMappings\<close> and an error of \<open>parseWithLines\<close> are thrown on.
\<close>

definition remap ::
  "runtime \<Rightarrow> string \<Rightarrow> SourceMap \<Rightarrow> string \<Rightarrow> string
   \<Rightarrow> (js_error + (string \<times> SourceMap)) option" where
  "remap rt codeWithSourceMap upstreamMap sourcePath targetPath =
     (let (codeWithoutSourceMap, sourceMapText) =
            (case smRegexp_exec codeWithSourceMap of
               None \<Rightarrow> (codeWithSourceMap, None)
             | Some (front, sm) \<Rightarrow> (front, Some sm));
          composed =
            (case sourceMapText of
               None \<Rightarrow> Inr upstreamMap
             | Some text \<Rightarrow>
                 if text = [] then Inr upstreamMap
                 else (case parseWithLines rt text of
                         Inl e \<Rightarrow> Inl e
                       | Inr (j, lines) \<Rightarrow>
                           Inr (upstreamMap\<lparr> sm_lines :=
                                  map Some (composeLines
                                    (lines_for_lookup (sm_lines upstreamMap)) lines) \<rparr>)))
      in case composed of
           Inl e \<Rightarrow> Some (Inl e)
         | Inr upstreamMap' \<Rightarrow>
             (case comment rt upstreamMap' sourcePath targetPath of
                None \<Rightarrow> None
              | Some (Inl e) \<Rightarrow> Some (Inl e)
              | Some (Inr c) \<Rightarrow>
                  Some (Inr (codeWithoutSourceMap @ [LF] @ c, upstreamMap'))))"

section \<open>Paths and extensions (typescript-service.mts)\<close>

text \<open>
  The three regular expressions on paths end at \<open>$\<close> and speak of the characters that
  are neither \<open>.\<close> nor \<open>/\<close>. \<open>split_tail\<close> cuts a path into the longest suffix of such
  characters and what is before it.
\<close>

definition is_ext_char :: "char \<Rightarrow> bool" where
  "is_ext_char c = (c \<noteq> CHR ''.'' \<and> c \<noteq> CHR ''/'')"

definition split_tail :: "string \<Rightarrow> string \<times> string" where
  "split_tail path =
     (rev (dropWhile is_ext_char (rev path)), rev (takeWhile is_ext_char (rev path)))"

text \<open>\<open>lastExtension = /(?:\.(?:[^./]+))?$/\<close>: the match is never null.\<close>

definition getExtensionFromPath :: "string \<Rightarrow> string" where
  "getExtensionFromPath path =
     (let (front, t) = split_tail path
      in if t \<noteq> [] \<and> front \<noteq> [] \<and> last front = CHR ''.'' then CHR ''.'' # t else [])"

text \<open>\<open>lastTwoExtensions = /(\.[^./]*)(\.[^./]*)$/\<close>.\<close>

definition getTranspiledExtensionsFromPath :: "string \<Rightarrow> (string \<times> string) option" where
  "getTranspiledExtensionsFromPath path =
     (let (before2, t2) = split_tail path
      in if before2 \<noteq> [] \<and> last before2 = CHR ''.''
         then
           let (before1, t1) = split_tail (butlast before2)
           in if before1 \<noteq> [] \<and> last before1 = CHR ''.''
              then Some (CHR ''.'' # t1, CHR ''.'' # t2)
              else None
         else None)"

text \<open>\<open>path.replace(/\.[^\/.]+$/, "")\<close>.\<close>

definition removeExtension :: "string \<Rightarrow> string" where
  "removeExtension path =
     (let (front, t) = split_tail path
      in if t \<noteq> [] \<and> front \<noteq> [] \<and> last front = CHR ''.'' then butlast front else path)"

section \<open>Snapshots (typescript-service.mts)\<close>

record TextSpan =
  ts_start :: int
  ts_length :: int

record TextChangeRange =
  tcr_span :: TextSpan
  tcr_newLength :: int

text \<open>The inner loop of \<open>fullDiffTextChangeRange\<close>; it returns \<open>end\<close>.\<close>

function fullDiff_suffix :: "string \<Rightarrow> string \<Rightarrow> nat \<Rightarrow> nat \<Rightarrow> int \<Rightarrow> int" where
  "fullDiff_suffix oldText newText stop i end' =
     (if i < stop then
        (if oldText ! (length oldText - i - 1) \<noteq> newText ! (length newText - i - 1)
         then end'
         else fullDiff_suffix oldText newText stop (i + 1) (end' - 1))
      else end')"
  by pat_completeness auto
termination
  by (relation "measure (\<lambda>(oldText, newText, stop, i, end'). stop - i)") auto

function fullDiff_loop :: "string \<Rightarrow> string \<Rightarrow> nat \<Rightarrow> TextChangeRange option" where
  "fullDiff_loop oldText newText start =
     (let oldTextLength = length oldText;
          newTextLength = length newText;
          minLength = min oldTextLength newTextLength
      in if start < minLength then
           (if oldText ! start \<noteq> newText ! start then
              (let stop = minLength - start;
                   end' = fullDiff_suffix oldText newText stop 0 (int oldTextLength);
                   len = end' - int start;
                   newLength = len + (int newTextLength - int oldTextLength)
               in if newLength < 0
                  then Some \<lparr> tcr_span = \<lparr> ts_start = int start, ts_length = len - newLength \<rparr>,
                              tcr_newLength = 0 \<rparr>
                  else Some \<lparr> tcr_span = \<lparr> ts_start = int start, ts_length = len \<rparr>,
                              tcr_newLength = newLength \<rparr>)
            else fullDiff_loop oldText newText (start + 1))
         else None)"
  by pat_completeness auto
termination
  by (relation "measure (\<lambda>(oldText, newText, start).
        min (length oldText) (length newText) - start)") auto

definition fullDiffTextChangeRange :: "string \<Rightarrow> string \<Rightarrow> TextChangeRange option" where
  "fullDiffTextChangeRange oldText newText = fullDiff_loop oldText newText 0"

text \<open>
  A snapshot made by \<open>Snap\<close> is an object: its text and the map \<open>changeRanges\<close>, whose
  keys are snapshot objects. Snapshots live in a store and are named by reference. In
  \<open>changeRanges\<close> the outer option says whether the key is present.
\<close>

type_synonym snap_ref = nat

record IScriptSnapshot =
  snap_newText :: string
  snap_changeRanges :: "snap_ref \<rightharpoonup> TextChangeRange option"

record SnapStore =
  snapshots :: "snap_ref \<Rightarrow> IScriptSnapshot"
  nextSnapshot :: snap_ref

definition Snap :: "string \<Rightarrow> SnapStore \<Rightarrow> snap_ref \<times> SnapStore" where
  "Snap newText st =
     (let r = nextSnapshot st
      in (r, st\<lparr> snapshots := (snapshots st)
                     (r := \<lparr> snap_newText = newText, snap_changeRanges = Map.empty \<rparr>),
                 nextSnapshot := r + 1 \<rparr>))"

text \<open>\<open>String.prototype.slice\<close>.\<close>

definition js_slice :: "string \<Rightarrow> int \<Rightarrow> int \<Rightarrow> string" where
  "js_slice s start end' =
     (let len = int (length s);
          from = (if start < 0 then max (len + start) 0 else min start len);
          to = (if end' < 0 then max (len + end') 0 else min end' len)
      in take (nat (to - from)) (drop (nat from) s))"

definition getText :: "IScriptSnapshot \<Rightarrow> int \<Rightarrow> int \<Rightarrow> string" where
  "getText this start end' = js_slice (snap_newText this) start end'"

definition getLength :: "IScriptSnapshot \<Rightarrow> int" where
  "getLength this = int (length (snap_newText this))"

definition getChangeRange ::
  "snap_ref \<Rightarrow> snap_ref \<Rightarrow> SnapStore \<Rightarrow> TextChangeRange option \<times> SnapStore" where
  "getChangeRange this oldSnapshot st =
     (let self = snapshots st this
      in case snap_changeRanges self oldSnapshot of
           Some known \<Rightarrow> (known, st)
         | None \<Rightarrow>
             (let old = snapshots st oldSnapshot;
                  oldText = getText old 0 (getLength old);
                  changeRange = fullDiffTextChangeRange oldText (snap_newText self);
                  self' = self\<lparr> snap_changeRanges :=
                            (snap_changeRanges self)(oldSnapshot \<mapsto> changeRange) \<rparr>
              in (changeRange, st\<lparr> snapshots := (snapshots st)(this := self') \<rparr>)))"

section \<open>The virtual-file host (typescript-service.mts)\<close>

text \<open>
  A \<open>TextDocument\<close> is an object that the editor and \<open>TextDocument.update\<close> change in
  place, and that \<open>pathMap\<close> and the metadata share: documents live in a store and are
  named by reference.
\<close>

type_synonym doc_ref = nat

record TextDocument =
  doc_uri :: string
  doc_languageId :: string
  doc_version :: int
  doc_text :: string

record TranspilerSourceMap =
  tsm_lines :: "SourceMapLines option"
  tsm_data_lines :: "SourceMapLines option"

record CompileOutput =
  out_code :: string
  out_sourceMap :: "TranspilerSourceMap option"
  out_errors :: "js_error list option"

text \<open>\<open>compile\<close> throws, or returns a result or \<open>undefined\<close>.\<close>

datatype compile_outcome =
    Throws js_error
  | Returns "CompileOutput option"

record Transpiler =
  tr_extension :: string
  tr_target :: string
  tr_compile :: "string \<Rightarrow> string \<Rightarrow> compile_outcome"

record FileMeta =
  meta_sourcemapLines :: "SourceMapLines option"
  meta_transpiledDoc :: "doc_ref option"
  meta_parseErrors :: "js_error list option"
  meta_fatal :: bool

text \<open>
  What the host is given and does not change: the transpilers, the file system behind
  \<open>sys.fileExists\<close> and \<open>sys.readFile\<close>, and the library functions \<open>path.join\<close>,
  \<open>fileURLToPath\<close> and \<open>pathToFileURL\<close>.
\<close>

record HostEnv =
  transpilers :: "string \<rightharpoonup> Transpiler"
  files :: "string \<rightharpoonup> string"
  path_join :: "string \<Rightarrow> string"
  fileURLToPath :: "string \<Rightarrow> string"
  pathToFileURL :: "string \<Rightarrow> string"

text \<open>
  The state of \<open>TSHost\<close>. \<open>scriptFileNames\<close> is a \<open>Set\<close>, kept as the list of its
  elements in insertion order.
\<close>

record Host =
  scriptFileNames :: "string list"
  fileMetaData :: "string \<rightharpoonup> FileMeta"
  pathMap :: "string \<rightharpoonup> doc_ref"
  snapshotMap :: "string \<rightharpoonup> snap_ref"
  projectVersion :: int
  documents :: "doc_ref \<Rightarrow> TextDocument"
  nextDocument :: doc_ref
  snapStore :: SnapStore

definition set_add :: "'a \<Rightarrow> 'a list \<Rightarrow> 'a list" where
  "set_add x xs = (if x \<in> set xs then xs else xs @ [x])"

definition getCanonicalFileName :: "HostEnv \<Rightarrow> string \<Rightarrow> string" where
  "getCanonicalFileName env fileName = path_join env fileName"

definition initTranspiledDoc :: "HostEnv \<Rightarrow> string \<Rightarrow> Host \<Rightarrow> doc_ref \<times> Host" where
  "initTranspiledDoc env path h =
     (let uri = pathToFileURL env path;
          transpiledDoc = nextDocument h
      in (transpiledDoc,
          h\<lparr> documents := (documents h)
                 (transpiledDoc := \<lparr> doc_uri = uri, doc_languageId = ''none'',
                                     doc_version = - 1, doc_text = [] \<rparr>),
              nextDocument := transpiledDoc + 1,
              pathMap := (pathMap h)(path \<mapsto> transpiledDoc),
              scriptFileNames := set_add path (scriptFileNames h) \<rparr>))"

definition getPathSource :: "HostEnv \<Rightarrow> string \<Rightarrow> Host \<Rightarrow> string" where
  "getPathSource env path h =
     (case pathMap h path of
        Some doc \<Rightarrow> doc_text (documents h doc)
      | None \<Rightarrow> (case files env path of Some t \<Rightarrow> t | None \<Rightarrow> []))"

definition getTranspiledPath :: "HostEnv \<Rightarrow> string \<Rightarrow> string" where
  "getTranspiledPath env path =
     (let extension = getExtensionFromPath path
      in case transpilers env extension of
           Some transpiler \<Rightarrow> path @ tr_target transpiler
         | None \<Rightarrow> path)"

definition createOrUpdateMeta ::
  "string \<Rightarrow> doc_ref \<Rightarrow> SourceMapLines option \<Rightarrow> js_error list option \<Rightarrow> bool
   \<Rightarrow> Host \<Rightarrow> Host" where
  "createOrUpdateMeta path transpiledDoc sourcemapLines parseErrors fatal h =
     (case fileMetaData h path of
        None \<Rightarrow>
          h\<lparr> fileMetaData := (fileMetaData h)
                 (path \<mapsto> \<lparr> meta_sourcemapLines = sourcemapLines,
                             meta_transpiledDoc = Some transpiledDoc,
                             meta_parseErrors = parseErrors,
                             meta_fatal = fatal \<rparr>) \<rparr>
      | Some meta \<Rightarrow>
          h\<lparr> fileMetaData := (fileMetaData h)
                 (path \<mapsto> meta\<lparr> meta_sourcemapLines := sourcemapLines,
                                  meta_parseErrors := parseErrors,
                                  meta_fatal := fatal \<rparr>) \<rparr>)"

text \<open>\<open>TextDocument.update(doc, [{ text }], version)\<close> replaces the whole text.\<close>

definition TextDocument_update :: "doc_ref \<Rightarrow> string \<Rightarrow> int \<Rightarrow> Host \<Rightarrow> Host" where
  "TextDocument_update doc text version h =
     h\<lparr> documents := (documents h)
            (doc := (documents h doc)\<lparr> doc_text := text, doc_version := version \<rparr>) \<rparr>"

definition doTranspileAndUpdateMeta ::
  "doc_ref \<Rightarrow> int \<Rightarrow> Transpiler \<Rightarrow> string \<Rightarrow> string \<Rightarrow> Host \<Rightarrow> string option \<times> Host" where
  "doTranspileAndUpdateMeta transpiledDoc version transpiler sourcePath sourceCode h =
     (case tr_compile transpiler sourcePath sourceCode of
        Throws e \<Rightarrow>
          (None, createOrUpdateMeta sourcePath transpiledDoc None (Some [e]) True h)
      | Returns None \<Rightarrow> (None, h)
      | Returns (Some result) \<Rightarrow>
          (let transpiledCode = out_code result;
               sourceMapLines =
                 (case out_sourceMap result of
                    None \<Rightarrow> None
                  | Some sourceMap \<Rightarrow>
                      (case tsm_lines sourceMap of
                         Some ls \<Rightarrow> Some ls
                       | None \<Rightarrow> tsm_data_lines sourceMap));
               h1 = createOrUpdateMeta sourcePath transpiledDoc sourceMapLines
                      (out_errors result) False h;
               h2 = TextDocument_update transpiledDoc transpiledCode version h1
           in (Some transpiledCode, h2)))"

definition new_snapshot :: "string \<Rightarrow> string \<Rightarrow> Host \<Rightarrow> snap_ref \<times> Host" where
  "new_snapshot path text h =
     (let (snapshot, st) = Snap text (snapStore h)
      in (snapshot, h\<lparr> snapStore := st, snapshotMap := (snapshotMap h)(path \<mapsto> snapshot) \<rparr>))"

definition getOrCreatePathSnapshot :: "HostEnv \<Rightarrow> string \<Rightarrow> Host \<Rightarrow> snap_ref \<times> Host" where
  "getOrCreatePathSnapshot env path h =
     (case snapshotMap h path of
        Some snapshot \<Rightarrow> (snapshot, h)
      | None \<Rightarrow>
          (case (case getTranspiledExtensionsFromPath path of
                   None \<Rightarrow> None
                 | Some exts \<Rightarrow> transpilers env (fst exts)) of
             Some transpiler \<Rightarrow>
               (let sourcePath = removeExtension path;
                    sourceDoc = pathMap h sourcePath;
                    (transpiledDoc, h1) =
                      (case pathMap h path of
                         Some d \<Rightarrow> (d, h)
                       | None \<Rightarrow> initTranspiledDoc env path h);
                    (source, sourceDocVersion) =
                      (case sourceDoc of
                         None \<Rightarrow> (files env sourcePath, 0)
                       | Some d \<Rightarrow>
                           (Some (doc_text (documents h1 d)), doc_version (documents h1 d)));
                    (transpiledCode, h2) =
                      (case source of
                         None \<Rightarrow> (None, h1)
                       | Some sourceCode \<Rightarrow>
                           if sourceCode \<noteq> []
                              \<and> sourceDocVersion > doc_version (documents h1 transpiledDoc)
                           then doTranspileAndUpdateMeta transpiledDoc sourceDocVersion
                                  transpiler sourcePath sourceCode h1
                           else (None, h1))
                in case transpiledCode of
                     Some code \<Rightarrow> new_snapshot path code h2
                   | None \<Rightarrow> new_snapshot path (doc_text (documents h2 transpiledDoc)) h2)
           | None \<Rightarrow> new_snapshot path (getPathSource env path h) h))"

definition getScriptSnapshot :: "HostEnv \<Rightarrow> string \<Rightarrow> Host \<Rightarrow> snap_ref \<times> Host" where
  "getScriptSnapshot env path h = getOrCreatePathSnapshot env (getCanonicalFileName env path) h"

definition getMeta :: "HostEnv \<Rightarrow> string \<Rightarrow> Host \<Rightarrow> FileMeta option \<times> Host" where
  "getMeta env path h =
     (let transpiledPath = getTranspiledPath env path;
          (snapshot, h') = getOrCreatePathSnapshot env transpiledPath h
      in (fileMetaData h' path, h'))"

definition addOrUpdateDocument :: "HostEnv \<Rightarrow> doc_ref \<Rightarrow> Host \<Rightarrow> Host" where
  "addOrUpdateDocument env doc h =
     (let path = fileURLToPath env (doc_uri (documents h doc));
          h1 = h\<lparr> snapshotMap := (snapshotMap h)(path := None),
                   projectVersion := projectVersion h + 1 \<rparr>;
          extension = getExtensionFromPath path
      in case transpilers env extension of
           Some transpiler \<Rightarrow>
             (let transpiledPath = path @ tr_target transpiler;
                  h2 = (case pathMap h1 transpiledPath of
                          None \<Rightarrow> snd (initTranspiledDoc env transpiledPath h1)
                        | Some transpiledDoc \<Rightarrow> h1);
                  h3 = h2\<lparr> snapshotMap := (snapshotMap h2)(transpiledPath := None) \<rparr>
              in h3\<lparr> pathMap := (pathMap h3)(path \<mapsto> doc) \<rparr>)
         | None \<Rightarrow>
             (let h2 = (if path \<notin> set (scriptFileNames h1)
                        then h1\<lparr> scriptFileNames := set_add path (scriptFileNames h1) \<rparr>
                        else h1);
                  h3 = (if pathMap h2 path = None
                        then h2\<lparr> pathMap := (pathMap h2)(path \<mapsto> doc) \<rparr>
                        else h2)
              in h3))"

text \<open>The host that \<open>TSHost\<close> returns, before any call.\<close>

definition TSHost :: "HostEnv \<Rightarrow> string list \<Rightarrow> (doc_ref \<Rightarrow> TextDocument) \<Rightarrow> doc_ref \<Rightarrow> Host" where
  "TSHost env initialFileNames docs next =
     \<lparr> scriptFileNames = fold set_add (map (getCanonicalFileName env) initialFileNames) [],
       fileMetaData = Map.empty,
       pathMap = Map.empty,
       snapshotMap = Map.empty,
       projectVersion = 0,
       documents = docs,
       nextDocument = next,
       snapStore = \<lparr> snapshots = (\<lambda>r. \<lparr> snap_newText = [], snap_changeRanges = Map.empty \<rparr>),
                     nextSnapshot = 0 \<rparr> \<rparr>"

section \<open>Auxiliary notions for the statements\<close>

text \<open>
  The digits of a non-negative number in base 32, least significant first, every digit
  but the last with the continuation bit: what \<open>encodeVlq_loop\<close> writes.
\<close>

fun vlq_digits :: "nat \<Rightarrow> string" where
  "vlq_digits n =
     (if n < 32 then [BASE64_CHARS ! n]
      else BASE64_CHARS ! (n mod 32 + 32) # vlq_digits (n div 32))"

declare vlq_digits.simps [simp del]

definition vlq_of :: "int \<Rightarrow> string" where
  "vlq_of v = vlq_digits (nat (2 * \<bar>v\<bar> + (if v < 0 then 1 else 0)))"

text \<open>The absolute generated columns of the entries of one line: the running sums.\<close>

fun gen_cols :: "int \<Rightarrow> SourceMapLine \<Rightarrow> int list" where
  "gen_cols p [] = []"
| "gen_cols p (e # es) = (p + entry_0 e) # gen_cols (p + entry_0 e) es"

definition generated_columns :: "SourceMapLine \<Rightarrow> int list" where
  "generated_columns line = gen_cols 0 line"

text \<open>
  The scenario of the specification: a map over the source \<open>abc\ndef\<close>, then
  \<open>updateSourceMap("ab", 0)\<close> and \<open>updateSourceMap("c", 2)\<close>.
\<close>

definition scenario_single_line :: "js_error + SourceMap" where
  "scenario_single_line =
     (case updateSourceMap ''ab'' (Some 0) 0 (new_SourceMap (''abc'' @ [LF] @ ''def'')) of
        Inl e \<Rightarrow> Inl e
      | Inr sm \<Rightarrow> updateSourceMap ''c'' (Some 2) 0 sm)"

text \<open>
  A runtime for the concrete instances: it writes a map document as its file name, its
  sources, its mappings and its source contents, separated by blanks, encodes with the
  identity, and rejects every document it is asked to parse.
\<close>

definition plain_runtime :: runtime where
  "plain_runtime =
     \<lparr> rt_stringify =
         (\<lambda>j. json_file j @ '' '' @ concat (json_sources j) @ '' '' @ json_mappings j
              @ '' '' @ concat (json_sourcesContent j)),
       rt_base64Encode = (\<lambda>s. s),
       rt_parse_base64 = (\<lambda>s. Inl TypeError) \<rparr>"

text \<open>
  \<open>anchor_at line p character src\<close>: the first entry of \<open>line\<close> whose generated column,
  counted from \<open>p\<close>, reaches \<open>character\<close> is an entry of length 4 that lies exactly at
  \<open>character\<close> and maps to \<open>src\<close>. \<open>hit\<close> reads the same off the result of the loop.
\<close>

definition anchor_at :: "SourceMapLine \<Rightarrow> int \<Rightarrow> int \<Rightarrow> int \<times> int \<Rightarrow> bool" where
  "anchor_at line p character src =
     (\<exists>i<length line.
        (\<exists>d f. line ! i = Seg4 d f (fst src) (snd src))
        \<and> gen_cols p line ! i = character
        \<and> (\<forall>j<i. gen_cols p line ! j < character))"

definition hit :: "ResolvedSourceMapEntry option \<times> int \<Rightarrow> int \<Rightarrow> int \<times> int \<Rightarrow> bool" where
  "hit r character src =
     (snd r = character \<and> (\<exists>d f. fst r = Some (Seg4 d f (fst src) (snd src))))"

text \<open>
  A segment is malformed when \<open>decodeVLQ\<close> throws on it or gives a number of fields
  other than 1, 4 or 5. The segments of a \<open>mappings\<close> string are the parts that
  \<open>parseWithLines\<close> decodes: the comma-separated parts of the non-empty lines.
\<close>

definition malformed_segment :: "string \<Rightarrow> bool" where
  "malformed_segment seg =
     (case decodeVLQ seg of
        Inl e \<Rightarrow> True
      | Inr r \<Rightarrow> length r \<noteq> 1 \<and> length r \<noteq> 4 \<and> length r \<noteq> 5)"

definition segments_of_mappings :: "string \<Rightarrow> string list" where
  "segments_of_mappings mappings =
     concat (map (\<lambda>line. if length line = 0 then [] else split_on CHR '','' line)
                 (split_on CHR '';'' mappings))"

text \<open>A runtime whose \<open>JSON.parse\<close> gives a document with the mappings \<open>m\<close>.\<close>

definition fixed_document_runtime :: "string \<Rightarrow> runtime" where
  "fixed_document_runtime m =
     \<lparr> rt_stringify = json_mappings, rt_base64Encode = (\<lambda>s. s),
       rt_parse_base64 = (\<lambda>s. Inr \<lparr> json_version = 3, json_file = [], json_sources = [],
                                     json_mappings = m, json_names = [],
                                     json_sourcesContent = [] \<rparr>) \<rparr>"

text \<open>
  A host for the concrete instances: one transpiler for \<open>.civet\<close> with target \<open>.tsx\<close>,
  whose \<open>compile\<close> throws on the source \<open>bad\<close> and otherwise returns code with a
  one-entry map; no files; documents 0 and 1 for \<open>/a.ts\<close> and document 2 for
  \<open>/m.civet\<close>.
\<close>

definition example_compile :: "string \<Rightarrow> string \<Rightarrow> compile_outcome" where
  "example_compile path source =
     (if source = ''bad'' then Throws (Thrown ''ParseError'')
      else Returns (Some \<lparr> out_code = ''js:'' @ source,
                            out_sourceMap = Some \<lparr> tsm_lines = Some [[Seg4 0 0 0 0]],
                                                   tsm_data_lines = None \<rparr>,
                            out_errors = Some [] \<rparr>))"

definition example_transpiler :: Transpiler where
  "example_transpiler =
     \<lparr> tr_extension = ''.civet'', tr_target = ''.tsx'', tr_compile = example_compile \<rparr>"

definition example_env :: HostEnv where
  "example_env =
     \<lparr> transpilers = [''.civet'' \<mapsto> example_transpiler],
       files = Map.empty,
       path_join = (\<lambda>p. p),
       fileURLToPath = drop 7,
       pathToFileURL = (\<lambda>p. ''file://'' @ p) \<rparr>"

definition example_documents :: "doc_ref \<Rightarrow> TextDocument" where
  "example_documents r =
     (if r = 2
      then \<lparr> doc_uri = ''file:///m.civet'', doc_languageId = ''civet'', doc_version = 1,
             doc_text = ''good'' \<rparr>
      else \<lparr> doc_uri = ''file:///a.ts'', doc_languageId = ''typescript'', doc_version = 1,
             doc_text = ''x'' \<rparr>)"

definition example_host :: Host where
  "example_host = TSHost example_env [] example_documents 3"

text \<open>
  The host after \<open>/m.civet\<close> was added and its mirror transpiled; then after the editor
  changed the document to \<open>bad\<close> at version 2 and the host was told; then after the
  snapshot of the mirror was asked for again.
\<close>

definition host_after_success :: Host where
  "host_after_success =
     snd (getScriptSnapshot example_env ''/m.civet.tsx''
            (addOrUpdateDocument example_env 2 example_host))"

definition host_before_failure :: Host where
  "host_before_failure =
     addOrUpdateDocument example_env 2 (TextDocument_update 2 ''bad'' 2 host_after_success)"

definition host_after_failure :: Host where
  "host_after_failure = snd (getScriptSnapshot example_env ''/m.civet.tsx'' host_before_failure)"

text \<open>
  \<open>fatal_recorded h path e\<close>: the metadata of \<open>path\<close> is fatal with the one error \<open>e\<close>.
\<close>

definition fatal_recorded :: "Host \<Rightarrow> string \<Rightarrow> js_error \<Rightarrow> bool" where
  "fatal_recorded h path e =
     (case fileMetaData h path of
        None \<Rightarrow> False
      | Some meta \<Rightarrow> meta_fatal meta \<and> meta_parseErrors meta = Some [e])"

text \<open>
  The part of \<open>getOrCreatePathSnapshot\<close> for a transpiled path, up to the snapshot, as a
  function of its own (\<open>getOrCreatePathSnapshot_unfold\<close> below).
\<close>

definition transpile_step ::
  "HostEnv \<Rightarrow> string \<Rightarrow> Transpiler \<Rightarrow> Host \<Rightarrow> doc_ref \<times> string option \<times> Host" where
  "transpile_step env path transpiler h =
     (let sourcePath = removeExtension path;
          sourceDoc = pathMap h sourcePath;
          (transpiledDoc, h1) =
            (case pathMap h path of
               Some d \<Rightarrow> (d, h)
             | None \<Rightarrow> initTranspiledDoc env path h);
          (source, sourceDocVersion) =
            (case sourceDoc of
               None \<Rightarrow> (files env sourcePath, 0)
             | Some d \<Rightarrow> (Some (doc_text (documents h1 d)), doc_version (documents h1 d)));
          (transpiledCode, h2) =
            (case source of
               None \<Rightarrow> (None, h1)
             | Some sourceCode \<Rightarrow>
                 if sourceCode \<noteq> []
                    \<and> sourceDocVersion > doc_version (documents h1 transpiledDoc)
                 then doTranspileAndUpdateMeta transpiledDoc sourceDocVersion
                        transpiler sourcePath sourceCode h1
                 else (None, h1))
      in (transpiledDoc, transpiledCode, h2))"

text \<open>
  The lengths of the longest common prefix and of the longest common suffix of two texts.
\<close>

definition common_prefix_length :: "string \<Rightarrow> string \<Rightarrow> nat" where
  "common_prefix_length a b = length (longest_common_prefix a b)"

definition common_suffix_length :: "string \<Rightarrow> string \<Rightarrow> nat" where
  "common_suffix_length a b = length (longest_common_prefix (rev a) (rev b))"

text \<open>
  The change range in terms of the common prefix and suffix: the common suffix is cut so
  that it does not reach into the common prefix in the shorter text, and there is no
  range when one text is a prefix of the other.
\<close>

definition expected_change_range :: "string \<Rightarrow> string \<Rightarrow> TextChangeRange option" where
  "expected_change_range oldText newText =
     (let prefixLen = common_prefix_length oldText newText;
          minLength = min (length oldText) (length newText);
          suffixLen = min (common_suffix_length oldText newText) (minLength - prefixLen)
      in if prefixLen < minLength
         then Some \<lparr> tcr_span = \<lparr> ts_start = int prefixLen,
                                   ts_length = (int (length oldText) - int suffixLen)
                                               - int prefixLen \<rparr>,
                      tcr_newLength = int (length newText) - int prefixLen - int suffixLen \<rparr>
         else None)"

text \<open>A store with the snapshot for \<open>oldText\<close> at 0 and the snapshot for \<open>newText\<close> at 1.\<close>

definition empty_store :: SnapStore where
  "empty_store =
     \<lparr> snapshots = (\<lambda>r. \<lparr> snap_newText = [], snap_changeRanges = Map.empty \<rparr>),
       nextSnapshot = 0 \<rparr>"

definition two_snapshots :: "string \<Rightarrow> string \<Rightarrow> SnapStore" where
  "two_snapshots oldText newText = snd (Snap newText (snd (Snap oldText empty_store)))"

text \<open>
  The entries that \<open>renderMappings\<close> writes in full and \<open>encodeVlq\<close> can encode: of
  length 1 or 4, the generated-column delta and the file index below \<open>2\<^sup>3\<^sup>0\<close> in
  magnitude, the source line and column from 0 up to \<open>2\<^sup>3\<^sup>0\<close>. \<open>position_in_range\<close> is
  the same bound on the running source position.
\<close>

fun seg_in_range :: "ResolvedSourceMapEntry \<Rightarrow> bool" where
  "seg_in_range (Seg1 d) = (\<bar>d\<bar> < 1073741824)"
| "seg_in_range (Seg4 d f l c) =
     (\<bar>d\<bar> < 1073741824 \<and> \<bar>f\<bar> < 1073741824
      \<and> 0 \<le> l \<and> l < 1073741824 \<and> 0 \<le> c \<and> c < 1073741824)"
| "seg_in_range (Seg5 d f l c n) = False"

definition position_in_range :: "int \<times> int \<Rightarrow> bool" where
  "position_in_range st =
     (0 \<le> fst st \<and> fst st < 1073741824 \<and> 0 \<le> snd st \<and> snd st < 1073741824)"

text \<open>
  The entries that \<open>renderMappings\<close> can write: as above for the lengths 1 and 4; of an
  entry of length 5 only the generated-column delta is encoded.
\<close>

fun seg_encodable :: "ResolvedSourceMapEntry \<Rightarrow> bool" where
  "seg_encodable (Seg1 d) = (\<bar>d\<bar> < 1073741824)"
| "seg_encodable (Seg4 d f l c) =
     (\<bar>d\<bar> < 1073741824 \<and> \<bar>f\<bar> < 1073741824
      \<and> 0 \<le> l \<and> l < 1073741824 \<and> 0 \<le> c \<and> c < 1073741824)"
| "seg_encodable (Seg5 d f l c n) = (\<bar>d\<bar> < 1073741824)"

section \<open>The VLQ codec: encoding and decoding\<close>

lemma to_int32_id: "0 \<le> n \<Longrightarrow> n < 2147483648 \<Longrightarrow> to_int32 n = n"
  by (simp add: to_int32_def signed_take_bit_int_eq_self)

lemma VLQ_CONTINUATION_BIT_eq: "VLQ_CONTINUATION_BIT = 32"
  by (simp add: VLQ_CONTINUATION_BIT_def VLQ_SHIFT_def js_shl_def to_int32_id)

lemma VLQ_VALUE_MASK_eq: "VLQ_VALUE_MASK = 31"
  by (simp add: VLQ_VALUE_MASK_def VLQ_CONTINUATION_BIT_eq)

lemma int_and_31: "(k::int) AND 31 = k mod 32"
  using take_bit_eq_mask[of 5 k] by (simp add: take_bit_eq_mod mask_eq_exp_minus_1)

lemma int_and_127: "(k::int) AND 127 = k mod 128"
  using take_bit_eq_mask[of 7 k] by (simp add: take_bit_eq_mod mask_eq_exp_minus_1)

lemma or_push_bit_add:
  fixes a b :: int
  assumes "0 \<le> a" "a < 2 ^ s"
  shows "a OR push_bit s b = a + push_bit s b"
proof -
  have a: "take_bit s a = a"
    using assms by (simp add: take_bit_int_eq_self)
  have "\<not> bit a n \<or> \<not> bit (push_bit s b) n" for n
  proof (cases "n < s")
    case True
    then show ?thesis by (simp add: bit_push_bit_iff)
  next
    case False
    then have "\<not> bit (take_bit s a) n" by (simp add: bit_take_bit_iff)
    then show ?thesis by (simp add: a)
  qed
  then show ?thesis by (simp add: disjunctive_add)
qed

lemma js_and_mask:
  "0 \<le> n \<Longrightarrow> n < 2147483648 \<Longrightarrow> js_and n VLQ_VALUE_MASK = n mod 32"
  by (simp add: js_and_def VLQ_VALUE_MASK_eq to_int32_id int_and_31)

lemma js_sar_shift:
  "0 \<le> n \<Longrightarrow> n < 2147483648 \<Longrightarrow> js_sar n VLQ_SHIFT = n div 32"
  by (simp add: js_sar_def VLQ_SHIFT_def to_int32_id drop_bit_eq_div)

lemma js_or_continuation:
  assumes "0 \<le> c" "c < 32"
  shows "js_or c VLQ_CONTINUATION_BIT = c + 32"
proof -
  have "c OR push_bit 5 1 = c + push_bit 5 1"
    using assms by (intro or_push_bit_add) simp_all
  then show ?thesis
    using assms by (simp add: js_or_def VLQ_CONTINUATION_BIT_eq to_int32_id)
qed

lemma encodeVlq_loop_zero: "answer \<noteq> [] \<Longrightarrow> encodeVlq_loop 0 answer = Some answer"
  by (subst encodeVlq_loop.simps) simp

lemma encodeVlq_loop_digits:
  "n \<noteq> 0 \<or> answer = [] \<Longrightarrow> n < 2147483648 \<Longrightarrow>
   encodeVlq_loop (int n) answer = Some (answer @ vlq_digits n)"
proof (induction n arbitrary: answer rule: vlq_digits.induct)
  case (1 n)
  have bounds: "0 \<le> int n" "int n < 2147483648"
    using "1.prems" by simp_all
  have chunk: "js_and (int n) VLQ_VALUE_MASK = int (n mod 32)"
    using bounds by (simp add: js_and_mask zmod_int)
  have rest: "js_sar (int n) VLQ_SHIFT = int (n div 32)"
    using bounds by (simp add: js_sar_shift zdiv_int)
  show ?case
  proof (cases "n < 32")
    case True
    then show ?thesis
      using "1.prems"
      by (subst encodeVlq_loop.simps, subst vlq_digits.simps)
         (simp add: chunk rest encodeVlq_loop_zero)
  next
    case False
    then have nz: "n div 32 \<noteq> 0" by simp
    have cont: "js_or (int (n mod 32)) VLQ_CONTINUATION_BIT = int (n mod 32 + 32)"
      by (simp add: js_or_continuation)
    have "encodeVlq_loop (int (n div 32)) (answer @ [BASE64_CHARS ! (n mod 32 + 32)])
          = Some ((answer @ [BASE64_CHARS ! (n mod 32 + 32)]) @ vlq_digits (n div 32))"
      using False nz "1.prems" by (intro "1.IH") simp_all
    then show ?thesis
      using False nz
      by (subst encodeVlq_loop.simps, subst vlq_digits.simps)
         (simp add: chunk rest cont del: of_nat_add)
  qed
qed

lemma vlqTable_eq:
  "vlqTable =
     replicate 43 0xFF @ [62] @ replicate 3 0xFF @ [63] @ map int [52..<62]
     @ replicate 7 0xFF @ map int [0..<26] @ replicate 6 0xFF @ map int [26..<52]
     @ replicate 5 0xFF"
  by code_simp

lemma vlqTable_nth:
  assumes "i < 128"
  shows "vlqTable ! i =
     (if 65 \<le> i \<and> i < 91 then int i - 65
      else if 97 \<le> i \<and> i < 123 then int i - 71
      else if 48 \<le> i \<and> i < 58 then int i + 4
      else if i = 43 then 62
      else if i = 47 then 63
      else 0xFF)"
  using assms unfolding vlqTable_eq
  by (auto simp: nth_append nth_Cons' less_diff_conv)

lemma base64_codes:
  "map (\<lambda>ch. of_char ch :: nat) BASE64_CHARS =
     [65..<91] @ [97..<123] @ [48..<58] @ [43, 47]"
  by (simp add: BASE64_CHARS_def upt_rec)

lemma length_BASE64_CHARS: "length BASE64_CHARS = 64"
  by (simp add: BASE64_CHARS_def)

lemma base64_code_nth:
  assumes "k < 64"
  shows "(of_char (BASE64_CHARS ! k) :: nat) =
     (if k < 26 then 65 + k else if k < 52 then 71 + k else if k < 62 then k - 4
      else if k = 62 then 43 else 47)"
proof -
  have "of_char (BASE64_CHARS ! k) = map (\<lambda>ch. of_char ch :: nat) BASE64_CHARS ! k"
    using assms by (simp add: length_BASE64_CHARS)
  also have "\<dots> = ([65..<91] @ [97..<123] @ [48..<58] @ [43, 47]) ! k"
    by (simp only: base64_codes)
  also have "\<dots> = (if k < 26 then 65 + k else if k < 52 then 71 + k else if k < 62 then k - 4
      else if k = 62 then 43 else 47)"
    using assms by (auto simp: nth_append nth_Cons' less_diff_conv)
  finally show ?thesis .
qed

lemma table_lookup:
  assumes "k < 64"
  shows "vlqTable ! (of_char (BASE64_CHARS ! k)) = int k"
    and "(of_char (BASE64_CHARS ! k) :: nat) < 128"
proof -
  show b: "(of_char (BASE64_CHARS ! k) :: nat) < 128"
    using assms by (auto simp: base64_code_nth)
  show "vlqTable ! (of_char (BASE64_CHARS ! k)) = int k"
    using assms by (simp add: vlqTable_nth [OF b]) (auto simp: base64_code_nth)
qed

lemma and_32_small:
  fixes k :: int
  assumes "0 \<le> k" "k < 32"
  shows "k AND 32 = 0"
proof -
  have "take_bit 5 k = k" using assms by (simp add: take_bit_int_eq_self)
  then have "\<not> bit k 5"
    by (metis bit_take_bit_iff less_irrefl)
  then have "k AND 2 ^ 5 = 0"
    by (simp only: and_exp_eq_0_iff_not_bit not_False_eq_True)
  then show ?thesis by simp
qed

lemma and_32_large:
  fixes k :: int
  assumes "0 \<le> k" "k < 32"
  shows "(k + 32) AND 32 = 32"
proof -
  have "k OR push_bit 5 1 = k + push_bit 5 1"
    using assms by (intro or_push_bit_add) simp_all
  then have "k + 32 = k OR 32" by simp
  then have "(k + 32) AND 32 = (k AND 32) OR (32 AND 32)"
    by (simp add: bit.conj_disj_distrib2)
  then show ?thesis using assms by (simp add: and_32_small)
qed

lemma js_and_7F:
  "0 \<le> c \<Longrightarrow> c < 128 \<Longrightarrow> js_and c 0x7F = c"
  by (simp add: js_and_def to_int32_id int_and_127)

lemma js_and_index_31:
  "0 \<le> i \<Longrightarrow> i < 64 \<Longrightarrow> js_and i 31 = i mod 32"
  by (simp add: js_and_def to_int32_id int_and_31)

lemma js_and_index_32:
  assumes "0 \<le> i" "i < 64"
  shows "js_and i 32 = 0 \<longleftrightarrow> i < 32"
proof (cases "i < 32")
  case True
  then show ?thesis using assms by (simp add: js_and_def to_int32_id and_32_small)
next
  case False
  then have "0 \<le> i - 32" "i - 32 < 32" using assms by simp_all
  from and_32_large [OF this] have "i AND 32 = 32" by simp
  then show ?thesis using assms False by (simp add: js_and_def to_int32_id)
qed

lemma js_shl_small:
  assumes "0 \<le> a" "s \<le> 30" "a * 2 ^ s < 2147483648"
  shows "js_shl a (int s) = a * 2 ^ s"
proof -
  have "a \<le> a * 2 ^ s" using assms(1) by (simp add: mult_le_cancel_left1)
  then have a: "to_int32 a = a" using assms by (intro to_int32_id) simp_all
  have "to_int32 (a * 2 ^ s) = a * 2 ^ s"
    using assms by (intro to_int32_id) simp_all
  then show ?thesis
    using assms(2) by (simp add: js_shl_def a push_bit_eq_mult)
qed

lemma js_or_disjoint:
  assumes "0 \<le> acc" "acc < 2 ^ s" "0 \<le> a" "acc + a * 2 ^ s < 2147483648"
  shows "js_or acc (a * 2 ^ s) = acc + a * 2 ^ s"
proof -
  have nn: "0 \<le> a * 2 ^ s" using assms(3) by simp
  have b: "a * 2 ^ s < 2147483648" "acc < 2147483648"
    using assms(1,4) nn by linarith+
  have "acc OR push_bit s a = acc + push_bit s a"
    using assms by (intro or_push_bit_add) simp_all
  then show ?thesis
    using assms b by (simp add: js_or_def to_int32_id push_bit_eq_mult)
qed

lemma decodeVLQ_group_digits:
  "s \<le> 30 \<Longrightarrow> acc < 2 ^ s \<Longrightarrow> acc + n * 2 ^ s < 2147483648 \<Longrightarrow>
   decodeVLQ_group (int s) (int acc) (vlq_digits n @ rest) = Inr (int (acc + n * 2 ^ s), rest)"
proof (induction n arbitrary: s acc rule: vlq_digits.induct)
  case (1 n)
  define idx where "idx = (if n < 32 then n else n mod 32 + 32)"
  have idx: "idx < 64" by (simp add: idx_def)
  define ch where "ch = BASE64_CHARS ! idx"
  have digits: "vlq_digits n = (if n < 32 then [ch] else ch # vlq_digits (n div 32))"
    by (subst vlq_digits.simps) (simp add: ch_def idx_def)
  have code: "(of_char ch :: int) = int (of_char ch)"
    by (rule of_nat_of_char [symmetric])
  have code_bound: "(of_char ch :: nat) < 128"
    unfolding ch_def by (rule table_lookup(2) [OF idx])
  have valid: "js_and (of_char ch) 0x7F = (of_char ch :: int)"
    unfolding code using code_bound by (intro js_and_7F) simp_all
  have index: "vlqTable ! (of_char ch) = int idx"
    unfolding ch_def by (rule table_lookup(1) [OF idx])
  have not_FF: "int idx \<noteq> 255"
    using idx by simp
  have low: "js_and (int idx) 31 = int (n mod 32)"
    using idx by (simp add: js_and_index_31 idx_def zmod_int)
  have cont: "js_and (int idx) 32 = 0 \<longleftrightarrow> n < 32"
    using idx js_and_index_32 [of "int idx"] by (simp add: idx_def)
  have le: "n mod 32 * 2 ^ s \<le> n * 2 ^ s" by simp
  have "acc + n mod 32 * 2 ^ s < 2147483648"
    using "1.prems"(3) le by linarith
  then have "int (acc + n mod 32 * 2 ^ s) < int 2147483648"
    by (simp only: of_nat_less_iff)
  then have lt: "int acc + int (n mod 32) * 2 ^ s < 2147483648"
    by simp
  then have lt': "int (n mod 32) * 2 ^ s < 2147483648"
    by linarith
  have "int acc < int (2 ^ s)"
    using "1.prems"(2) by (simp only: of_nat_less_iff)
  then have acc_lt: "int acc < 2 ^ s" by simp
  have "js_shl (int (n mod 32)) (int s) = int (n mod 32) * 2 ^ s"
    using "1.prems"(1) lt' by (intro js_shl_small) simp_all
  then have shl: "js_shl (int (n mod 32)) (int s) = int (n mod 32 * 2 ^ s)"
    by simp
  have "js_or (int acc) (int (n mod 32) * 2 ^ s) = int acc + int (n mod 32) * 2 ^ s"
    using lt acc_lt by (intro js_or_disjoint) simp_all
  then have acc': "js_or (int acc) (int (n mod 32 * 2 ^ s)) = int (acc + n mod 32 * 2 ^ s)"
    by simp
  have step: "decodeVLQ_group (int s) (int acc) (ch # tl) =
      (if n < 32 then Inr (int (acc + n mod 32 * 2 ^ s), tl)
       else decodeVLQ_group (int s + 5) (int (acc + n mod 32 * 2 ^ s)) tl)" for tl
  proof (cases "n < 32")
    case True
    then have "n mod 32 = n" by simp
    with True show ?thesis
      using not_FF low cont shl acc' by (simp add: Let_def valid index)
  next
    case False
    then show ?thesis
      using not_FF low cont shl acc' by (simp add: Let_def valid index)
  qed
  show ?case
  proof (cases "n < 32")
    case True
    then show ?thesis
      by (simp add: digits step del: decodeVLQ_group.simps)
  next
    case False
    then have pos: "1 \<le> n div 32" by simp
    have gen: "a * c + b * (c * 32) = (a + 32 * b) * c" for a b c :: nat
      by (simp add: algebra_simps)
    have "n mod 32 * 2 ^ s + n div 32 * 2 ^ (s + 5) = (n mod 32 + 32 * (n div 32)) * 2 ^ s"
      using gen [of "n mod 32" "2 ^ s" "n div 32"] by (simp only: power_add) simp
    also have "\<dots> = n * 2 ^ s"
      by (simp only: mod_mult_div_eq)
    finally have eq: "acc + n mod 32 * 2 ^ s + n div 32 * 2 ^ (s + 5) = acc + n * 2 ^ s"
      by linarith
    have "2 ^ (s + 5) \<le> n div 32 * 2 ^ (s + 5)" using pos by simp
    also have "\<dots> \<le> acc + n * 2 ^ s" using eq by linarith
    finally have "(2::nat) ^ (s + 5) < 2 ^ 31" using "1.prems" by simp
    then have "s + 5 < 31"
      by (rule power_less_imp_less_exp [rotated]) simp
    then have s5: "s + 5 \<le> 30" by simp
    have "n mod 32 \<le> 31" by simp
    then have "n mod 32 * 2 ^ s \<le> 31 * 2 ^ s" by (rule mult_le_mono1)
    moreover have "(2::nat) ^ (s + 5) = 32 * 2 ^ s" by (simp add: power_add)
    ultimately have small: "acc + n mod 32 * 2 ^ s < 2 ^ (s + 5)"
      using "1.prems"(2) by linarith
    have "decodeVLQ_group (int (s + 5)) (int (acc + n mod 32 * 2 ^ s)) (vlq_digits (n div 32) @ rest)
          = Inr (int (acc + n mod 32 * 2 ^ s + n div 32 * 2 ^ (s + 5)), rest)"
      using False s5 small "1.prems" eq by (intro "1.IH") simp_all
    moreover have "int (s + 5) = int s + 5" by simp
    ultimately have "decodeVLQ_group (int s + 5) (int (acc + n mod 32 * 2 ^ s))
          (vlq_digits (n div 32) @ rest) = Inr (int (acc + n * 2 ^ s), rest)"
      by (simp only: eq)
    then show ?thesis
      using False
      by (simp add: digits step del: decodeVLQ_group.simps of_nat_add of_nat_mult)
  qed
qed

lemma encodeVlq_vlq_of:
  assumes "\<bar>v\<bar> < 1073741824"
  shows "encodeVlq v = Some (vlq_of v)"
proof -
  have "js_shl \<bar>v\<bar> (int 1) = \<bar>v\<bar> * 2 ^ 1"
    using assms by (intro js_shl_small) simp_all
  then have shl: "js_shl \<bar>v\<bar> 1 = 2 * \<bar>v\<bar>" by simp
  define n where "n = nat (2 * \<bar>v\<bar> + (if v < 0 then 1 else 0))"
  have n: "int n = 2 * \<bar>v\<bar> + (if v < 0 then 1 else 0)" "n < 2147483648"
    using assms by (cases "v < 0"; simp add: n_def)+
  have "encodeVlq_loop (int n) [] = Some ([] @ vlq_digits n)"
    using n(2) by (intro encodeVlq_loop_digits) simp_all
  then show ?thesis
    by (simp add: encodeVlq_def shl n(1) vlq_of_def n_def [symmetric])
qed

lemma vlq_digits_not_Nil: "vlq_digits n \<noteq> []"
  by (subst vlq_digits.simps) simp

lemma decodeVLQ_loop_vlq_of:
  assumes "\<bar>v\<bar> < 1073741824"
  shows "decodeVLQ_loop (vlq_of v @ rest) result = decodeVLQ_loop rest (result @ [v])"
proof -
  define n where "n = nat (2 * \<bar>v\<bar> + (if v < 0 then 1 else 0))"
  have n: "int n = 2 * \<bar>v\<bar> + (if v < 0 then 1 else 0)" "n < 2147483648"
    using assms by (cases "v < 0"; simp add: n_def)+
  have "decodeVLQ_group (int 0) (int 0) (vlq_digits n @ rest) = Inr (int (0 + n * 2 ^ 0), rest)"
    using n(2) by (intro decodeVLQ_group_digits) simp_all
  then have grp: "decodeVLQ_group 0 0 (vlq_digits n @ rest) = Inr (int n, rest)"
    by simp
  obtain ch cs where cons: "vlq_digits n @ rest = ch # cs"
    using vlq_digits_not_Nil [of n] by (cases "vlq_digits n") auto
  have odd: "js_and (int n) 1 = (if v < 0 then 1 else 0)"
    using n by (simp add: js_and_def to_int32_id and_one_eq)
  have half: "js_sar (int n) 1 = \<bar>v\<bar>"
    using n by (simp add: js_sar_def to_int32_id drop_bit_eq_div)
  have "decodeVLQ_loop (ch # cs) result = decodeVLQ_loop rest (result @ [v])"
    using grp unfolding cons
    by (simp add: odd half del: decodeVLQ_group.simps)
  then show ?thesis
    by (simp add: vlq_of_def n_def [symmetric] cons)
qed

text \<open>Outside the range: a negative \<open>valueToEncode\<close> never becomes zero.\<close>

lemma to_int32_negative_id: "- 2147483648 \<le> n \<Longrightarrow> n < 0 \<Longrightarrow> to_int32 n = n"
  by (simp add: to_int32_def signed_take_bit_int_eq_self)

lemma encodeVlq_loop_negative_aux:
  assumes "encodeVlq_loop v answer = Some y"
  shows "\<not> (- 2147483648 \<le> v \<and> v < 0)"
proof (rule encodeVlq_loop.raw_induct
    [where P = "\<lambda>v answer y. \<not> (- 2147483648 \<le> v \<and> v < 0)", OF _ assms], goal_cases)
  case (1 f w a r)
  show ?case
  proof
    assume range: "- 2147483648 \<le> w \<and> w < 0"
    then have sar: "js_sar w VLQ_SHIFT = w div 32"
      by (simp add: js_sar_def VLQ_SHIFT_def to_int32_negative_id drop_bit_eq_div)
    have next_range: "- 2147483648 \<le> w div 32 \<and> w div 32 < 0"
      using range by presburger
    from 1(2) range obtain b where "f (w div 32) b = Some r"
      by (auto simp: Let_def sar split: if_splits)
    from 1(1) [OF this] next_range show False by simp
  qed
qed

lemma encodeVlq_loop_negative:
  "- 2147483648 \<le> v \<Longrightarrow> v < 0 \<Longrightarrow> encodeVlq_loop v answer = None"
  using encodeVlq_loop_negative_aux [of v answer] by (cases "encodeVlq_loop v answer") auto

lemma encodeVlq_out_of_range:
  assumes "1073741824 \<le> \<bar>v\<bar>" "\<bar>v\<bar> < 2147483648"
  shows "encodeVlq v = None"
proof -
  have abs32: "to_int32 \<bar>v\<bar> = \<bar>v\<bar>"
    using assms by (intro to_int32_id) simp_all
  have wrap: "signed_take_bit 31 (2 * \<bar>v\<bar>) = 2 * \<bar>v\<bar> - 4294967296"
  proof -
    have "signed_take_bit 31 (2 * \<bar>v\<bar> - 4294967296) = 2 * \<bar>v\<bar> - 4294967296"
      using assms by (intro signed_take_bit_int_eq_self) simp_all
    moreover have "signed_take_bit 31 (2 * \<bar>v\<bar> - 4294967296) = signed_take_bit 31 (2 * \<bar>v\<bar>)"
      by (simp add: signed_take_bit_eq_iff_take_bit_eq take_bit_eq_mod)
    ultimately show ?thesis by simp
  qed
  have "js_shl \<bar>v\<bar> 1 = to_int32 (2 * \<bar>v\<bar>)"
    by (simp add: js_shl_def abs32 push_bit_eq_mult mult.commute)
  then have shl: "js_shl \<bar>v\<bar> 1 = 2 * \<bar>v\<bar> - 4294967296"
    by (simp only: to_int32_def wrap)
  have "- 2147483648 \<le> 2 * \<bar>v\<bar> - 4294967296 + (if v < 0 then 1 else 0)"
    "2 * \<bar>v\<bar> - 4294967296 + (if v < 0 then 1 else 0) < 0"
    using assms by (cases "v < 0"; simp; arith)+
  then have "encodeVlq_loop (2 * \<bar>v\<bar> - 4294967296 + (if v < 0 then 1 else 0)) [] = None"
    by (rule encodeVlq_loop_negative)
  then show ?thesis
    by (simp add: encodeVlq_def shl Let_def)
qed

text \<open>
  Claim C2, as the source has it. The claim states the round trip for every integer from
  \<open>-2\<^sup>3\<^sup>1\<close> up to \<open>2\<^sup>3\<^sup>1\<close>. At \<open>-2\<^sup>3\<^sup>1\<close> the shift \<open>Math.abs(value) << 1\<close> wraps to 0 in
  32 bits: the value is written as \<open>B\<close>, which decodes to 0. At \<open>2\<^sup>3\<^sup>0\<close> the shifted value is
  negative and \<open>encodeVlq\<close> does not return.
\<close>

theorem encodeVlq_min_int32_counterexample:
  "encodeVlq (- 2147483648) = Some ''B'' \<and> decodeVLQ ''B'' = Inr [0]
   \<and> decodeVLQ ''B'' \<noteq> Inr [- 2147483648]
   \<and> encodeVlq 1073741824 = None"
proof -
  have "encodeVlq 1073741824 = None"
    by (rule encodeVlq_out_of_range) simp_all
  moreover have "encodeVlq (- 2147483648) = Some ''B'' \<and> decodeVLQ ''B'' = Inr [0]
      \<and> decodeVLQ ''B'' \<noteq> Inr [- 2147483648]"
    by (simp add: encodeVlq_def encodeVlq_loop.simps decodeVLQ_def js_shl_def js_and_def
        js_or_def js_sar_def to_int32_def VLQ_SHIFT_def VLQ_CONTINUATION_BIT_def
        VLQ_VALUE_MASK_def BASE64_CHARS_def Let_def vlqTable_nth)
  ultimately show ?thesis
    by blast
qed

text \<open>
  Claim C2, amended: for every integer \<open>v\<close> with \<open>-2\<^sup>3\<^sup>0 < v < 2\<^sup>3\<^sup>0\<close>, \<open>encodeVlq v\<close>
  returns a string, and \<open>decodeVLQ\<close> of that string is the one-element segment \<open>[v]\<close>.
\<close>

theorem encodeVlq_decodeVLQ_roundtrip:
  assumes "- 1073741824 < v" "v < 1073741824"
  shows "\<exists>s. encodeVlq v = Some s \<and> decodeVLQ s = Inr [v]"
proof -
  have b: "\<bar>v\<bar> < 1073741824" using assms by simp
  have "decodeVLQ_loop (vlq_of v @ []) [] = decodeVLQ_loop [] ([] @ [v])"
    using b by (rule decodeVLQ_loop_vlq_of)
  then have "decodeVLQ (vlq_of v) = Inr [v]"
    by (simp add: decodeVLQ_def)
  then show ?thesis using encodeVlq_vlq_of [OF b] by simp
qed

theorem encodeVlq_decodeVLQ_roundtrip_witness:
  "- 1073741824 < (- 17 :: int) \<and> (- 17 :: int) < 1073741824
   \<and> (\<exists>s. encodeVlq (- 17) = Some s \<and> decodeVLQ s = Inr [- 17])"
  using encodeVlq_decodeVLQ_roundtrip [of "- 17"] by simp

section \<open>The builder on the single-line scenario\<close>

lemma table_abc_def: "locationTable (''abc'' @ [LF] @ ''def'') = [4, 7]"
  by (simp add: locationTable_def linesRe_exec_def linesRe_match_def CR_def LF_def Let_def)

lemma lookup_0: "lookupLineColumn [4, 7] 0 = (0, 0)"
  by (simp add: lookupLineColumn_def)

lemma lookup_2: "lookupLineColumn [4, 7] 2 = (0, 2)"
  by (simp add: lookupLineColumn_def)

lemma scenario_value:
  "scenario_single_line =
     Inr \<lparr> sm_source = ''abc'' @ [LF] @ ''def'', sm_lines = [Some [Seg4 0 0 0 0, Seg4 2 0 0 2]],
           sm_line = 0, sm_colOffset = 1, sm_srcLine = 0, sm_srcColumn = 3,
           sm_srcTable = [4, 7] \<rparr>"
  unfolding scenario_single_line_def new_SourceMap_def table_abc_def
  by (simp add: updateSourceMap_def lookup_0 lookup_2 push_entry_def Let_def CR_def LF_def)

lemma vlq_of_0: "vlq_of 0 = ''A''"
  by (simp add: vlq_of_def vlq_digits.simps BASE64_CHARS_def)

lemma vlq_of_2: "vlq_of 2 = ''E''"
  by (simp add: vlq_of_def vlq_digits.simps BASE64_CHARS_def)

lemma encodeVlq_0: "encodeVlq 0 = Some ''A''"
  using encodeVlq_vlq_of [of 0] by (simp add: vlq_of_0)

lemma encodeVlq_2: "encodeVlq 2 = Some ''E''"
  using encodeVlq_vlq_of [of 2] by (simp add: vlq_of_2)

lemma decodeVLQ_AAAA: "decodeVLQ ''AAAA'' = Inr [0, 0, 0, 0]"
  using decodeVLQ_loop_vlq_of [of 0 "''AAA''" "[]"]
        decodeVLQ_loop_vlq_of [of 0 "''AA''" "[0]"]
        decodeVLQ_loop_vlq_of [of 0 "''A''" "[0, 0]"]
        decodeVLQ_loop_vlq_of [of 0 "[]" "[0, 0, 0]"]
  by (simp add: vlq_of_0 decodeVLQ_def del: decodeVLQ_loop.simps(2))

lemma decodeVLQ_EAAE: "decodeVLQ ''EAAE'' = Inr [2, 0, 0, 2]"
  using decodeVLQ_loop_vlq_of [of 2 "''AAE''" "[]"]
        decodeVLQ_loop_vlq_of [of 0 "''AE''" "[2]"]
        decodeVLQ_loop_vlq_of [of 0 "''E''" "[2, 0]"]
        decodeVLQ_loop_vlq_of [of 2 "[]" "[2, 0, 0]"]
  by (simp add: vlq_of_0 vlq_of_2 decodeVLQ_def del: decodeVLQ_loop.simps(2))

text \<open>
  Claim C5, as the source has it. The claim gives \<open>AAAA,CAAC\<close> as the rendering of the
  scenario; the second entry has generated-column delta 2 and source-column delta 2, and
  the VLQ of 2 is \<open>E\<close> (\<open>C\<close> is the VLQ of 1).
\<close>

theorem scenario_render_counterexample:
  "case_sum (\<lambda>e. None) renderMappings scenario_single_line \<noteq> Some (Inr ''AAAA,CAAC'')"
  by (simp add: scenario_value renderMappings_def encodeVlq_0 encodeVlq_2)

text \<open>
  Claim C5, amended: on the scenario \<open>renderMappings\<close> returns \<open>AAAA,EAAE\<close>; the lines
  of the builder are the single line \<open>[[0,0,0,0],[2,0,0,2]]\<close> in resolved form, with
  absolute generated columns 0 and 2; and parsing \<open>AAAA,EAAE\<close> gives these lines back.
\<close>

theorem scenario_render_and_lines:
  "case_sum (\<lambda>e. None) renderMappings scenario_single_line = Some (Inr ''AAAA,EAAE'')
   \<and> map_sum id sm_lines scenario_single_line = Inr [Some [Seg4 0 0 0 0, Seg4 2 0 0 2]]
   \<and> map generated_columns [[Seg4 0 0 0 0, Seg4 2 0 0 2]] = [[0, 2]]
   \<and> parseWithLines_lines (split_on CHR '';'' ''AAAA,EAAE'') (0, 0)
       = Inr [[Seg4 0 0 0 0, Seg4 2 0 0 2]]"
  by (simp add: scenario_value renderMappings_def encodeVlq_0 encodeVlq_2
      generated_columns_def parseWithLines_entry_def decodeVLQ_AAAA decodeVLQ_EAAE)

section \<open>Exact remapping of positions\<close>

lemma length_gen_cols [simp]: "length (gen_cols p line) = length line"
  by (induction line arbitrary: p) simp_all

lemma anchor_at_Nil [simp]: "\<not> anchor_at [] p character src"
  by (simp add: anchor_at_def)

lemma anchor_at_Cons:
  "anchor_at (m # ms) p character src \<longleftrightarrow>
     (if p + entry_0 m \<ge> character
      then (\<exists>d f. m = Seg4 d f (fst src) (snd src)) \<and> p + entry_0 m = character
      else anchor_at ms (p + entry_0 m) character src)"
proof (cases "p + entry_0 m \<ge> character")
  case True
  have "anchor_at (m # ms) p character src \<longleftrightarrow>
        (\<exists>d f. m = Seg4 d f (fst src) (snd src)) \<and> p + entry_0 m = character"
  proof
    assume "anchor_at (m # ms) p character src"
    then obtain i where i: "i < length (m # ms)"
        "\<exists>d f. (m # ms) ! i = Seg4 d f (fst src) (snd src)"
        "gen_cols p (m # ms) ! i = character"
        "\<forall>j<i. gen_cols p (m # ms) ! j < character"
      unfolding anchor_at_def by blast
    have "i = 0"
    proof (rule ccontr)
      assume "i \<noteq> 0"
      then have "gen_cols p (m # ms) ! 0 < character" using i(4) by blast
      with True show False by simp
    qed
    with i show "(\<exists>d f. m = Seg4 d f (fst src) (snd src)) \<and> p + entry_0 m = character"
      by simp
  next
    assume "(\<exists>d f. m = Seg4 d f (fst src) (snd src)) \<and> p + entry_0 m = character"
    then show "anchor_at (m # ms) p character src"
      unfolding anchor_at_def by (intro exI [of _ 0]) simp
  qed
  with True show ?thesis by simp
next
  case False
  have "anchor_at (m # ms) p character src \<longleftrightarrow> anchor_at ms (p + entry_0 m) character src"
  proof
    assume "anchor_at (m # ms) p character src"
    then obtain i where i: "i < length (m # ms)"
        "\<exists>d f. (m # ms) ! i = Seg4 d f (fst src) (snd src)"
        "gen_cols p (m # ms) ! i = character"
        "\<forall>j<i. gen_cols p (m # ms) ! j < character"
      unfolding anchor_at_def by blast
    from i(3) False obtain k where k: "i = Suc k" by (cases i) auto
    have "\<forall>j<k. gen_cols (p + entry_0 m) ms ! j < character"
    proof (intro allI impI)
      fix j assume "j < k"
      then have "Suc j < i" using k by simp
      with i(4) have "gen_cols p (m # ms) ! Suc j < character" by blast
      then show "gen_cols (p + entry_0 m) ms ! j < character" by simp
    qed
    with i(1,2,3) k show "anchor_at ms (p + entry_0 m) character src"
      unfolding anchor_at_def by (intro exI [of _ k]) simp
  next
    assume "anchor_at ms (p + entry_0 m) character src"
    then obtain k where k: "k < length ms"
        "\<exists>d f. ms ! k = Seg4 d f (fst src) (snd src)"
        "gen_cols (p + entry_0 m) ms ! k = character"
        "\<forall>j<k. gen_cols (p + entry_0 m) ms ! j < character"
      unfolding anchor_at_def by blast
    have "\<forall>j<Suc k. gen_cols p (m # ms) ! j < character"
    proof (intro allI impI)
      fix j assume j: "j < Suc k"
      show "gen_cols p (m # ms) ! j < character"
      proof (cases j)
        case 0
        with False show ?thesis by simp
      next
        case (Suc j')
        with j k(4) show ?thesis by simp
      qed
    qed
    with k(1,2,3) show "anchor_at (m # ms) p character src"
      unfolding anchor_at_def by (intro exI [of _ "Suc k"]) simp
  qed
  with False show ?thesis by simp
qed

lemma remapPosition_loop_anchor:
  "(lastMapping \<noteq> None \<longrightarrow> lastMappingPosition < character) \<Longrightarrow>
   hit (remapPosition_loop line character p lastMapping lastMappingPosition) character src
     \<longleftrightarrow> anchor_at line p character src"
proof (induction line arbitrary: p lastMapping lastMappingPosition)
  case Nil
  then show ?case by (auto simp: hit_def)
next
  case (Cons m ms)
  show ?case
  proof (cases "p + entry_0 m \<ge> character")
    case True
    then show ?thesis
      using Cons.prems
      by (cases m) (auto simp: anchor_at_Cons hit_def Let_def)
  next
    case False
    then have lt: "p + entry_0 m < character" by simp
    show ?thesis
    proof (cases m)
      case (Seg4 d f l c)
      have "hit (remapPosition_loop ms character (p + entry_0 m) (Some m) (p + entry_0 m))
              character src \<longleftrightarrow> anchor_at ms (p + entry_0 m) character src"
        using lt by (intro Cons.IH) simp
      then show ?thesis
        using False Seg4 by (simp add: anchor_at_Cons Let_def)
    next
      case (Seg1 d)
      have "hit (remapPosition_loop ms character (p + entry_0 m) lastMapping lastMappingPosition)
              character src \<longleftrightarrow> anchor_at ms (p + entry_0 m) character src"
        using Cons.prems by (intro Cons.IH)
      then show ?thesis
        using False Seg1 by (simp add: anchor_at_Cons Let_def)
    next
      case (Seg5 d f l c n)
      have "hit (remapPosition_loop ms character (p + entry_0 m) lastMapping lastMappingPosition)
              character src \<longleftrightarrow> anchor_at ms (p + entry_0 m) character src"
        using Cons.prems by (intro Cons.IH)
      then show ?thesis
        using False Seg5 by (simp add: anchor_at_Cons Let_def)
    qed
  qed
qed

lemma remapPosition_loop_last_Seg4:
  "(\<forall>m. lastMapping = Some m \<longrightarrow> (\<exists>d f l c. m = Seg4 d f l c)) \<Longrightarrow>
   fst (remapPosition_loop line character p lastMapping lastMappingPosition) = Some m \<Longrightarrow>
   \<exists>d f l c. m = Seg4 d f l c"
proof (induction line arbitrary: p lastMapping lastMappingPosition)
  case Nil
  then show ?case by simp
next
  case (Cons e es)
  define p' where "p' = p + entry_0 e"
  show ?case
  proof (cases "\<exists>d f l c. e = Seg4 d f l c")
    case True
    then have step: "remapPosition_loop (e # es) character p lastMapping lastMappingPosition =
        (if p' \<ge> character then (Some e, p')
         else remapPosition_loop es character p' (Some e) p')"
      by (auto simp: Let_def p'_def)
    show ?thesis
    proof (cases "p' \<ge> character")
      case ge: True
      with step Cons.prems(2) True show ?thesis by auto
    next
      case lt: False
      with step Cons.prems(2)
      have "fst (remapPosition_loop es character p' (Some e) p') = Some m" by simp
      moreover have "\<forall>m. Some e = Some m \<longrightarrow> (\<exists>d f l c. m = Seg4 d f l c)"
        using True by simp
      ultimately show ?thesis by (rule Cons.IH [rotated])
    qed
  next
    case False
    then have step: "remapPosition_loop (e # es) character p lastMapping lastMappingPosition =
        (if p' \<ge> character then (lastMapping, lastMappingPosition)
         else remapPosition_loop es character p' lastMapping lastMappingPosition)"
      by (cases e) (auto simp: Let_def p'_def)
    show ?thesis
    proof (cases "p' \<ge> character")
      case ge: True
      with step Cons.prems show ?thesis by auto
    next
      case lt: False
      with step Cons.prems(2)
      have "fst (remapPosition_loop es character p' lastMapping lastMappingPosition) = Some m"
        by simp
      with Cons.prems(1) show ?thesis by (rule Cons.IH)
    qed
  qed
qed

text \<open>
  Claim C4, amended: \<open>remapPosition((L, C), mapLines)\<close> returns the source position
  \<open>(sl, sc)\<close> exactly when line \<open>L\<close> exists and the first entry of that line whose
  accumulated generated column reaches \<open>C\<close> is an entry of length 4 whose accumulated
  column is exactly \<open>C\<close> and whose absolute source position is \<open>(sl, sc)\<close>. In every
  other case, between two anchors included, it returns none.
\<close>

theorem remapPosition_exact:
  "remapPosition (L, C) mapLines = Some (sl, sc) \<longleftrightarrow>
     0 \<le> L \<and> L < int (length mapLines) \<and>
     (\<exists>i<length (mapLines ! nat L).
        (\<exists>d f. mapLines ! nat L ! i = Seg4 d f sl sc)
        \<and> generated_columns (mapLines ! nat L) ! i = C
        \<and> (\<forall>j<i. generated_columns (mapLines ! nat L) ! j < C))"
proof (cases "0 \<le> L \<and> L < int (length mapLines)")
  case False
  then show ?thesis by (auto simp: remapPosition_def)
next
  case True
  define line where "line = mapLines ! nat L"
  obtain lm lmp where loop: "remapPosition_loop line C 0 None 0 = (lm, lmp)"
    by (cases "remapPosition_loop line C 0 None 0") auto
  have anchor: "hit (lm, lmp) C (sl, sc) \<longleftrightarrow> anchor_at line 0 C (sl, sc)"
    using remapPosition_loop_anchor [of None 0 C line 0 "(sl, sc)"] by (simp add: loop)
  have seg4: "lm = Some m \<Longrightarrow> \<exists>d f l c. m = Seg4 d f l c" for m
    using remapPosition_loop_last_Seg4 [of None line C 0 0 m] by (simp add: loop)
  have "remapPosition (L, C) mapLines = Some (sl, sc) \<longleftrightarrow> hit (lm, lmp) C (sl, sc)"
  proof (cases line)
    case Nil
    then have "\<not> anchor_at line 0 C (sl, sc)" by simp
    with anchor Nil True show ?thesis
      by (simp add: remapPosition_def line_def [symmetric])
  next
    case (Cons e es)
    show ?thesis
    proof (cases lm)
      case None
      with Cons True loop show ?thesis
        by (simp add: remapPosition_def line_def [symmetric] hit_def)
    next
      case (Some m)
      with seg4 obtain d f l c where m: "m = Seg4 d f l c" by blast
      with Some Cons True loop show ?thesis
        by (auto simp: remapPosition_def line_def [symmetric] hit_def)
    qed
  qed
  with anchor True show ?thesis
    by (simp add: anchor_at_def generated_columns_def line_def)
qed

theorem remapPosition_exact_witness:
  "(0::int) \<le> 0 \<and> (0::int) < int (length [[Seg4 0 0 10 4, Seg4 5 0 11 2, Seg1 3]]) \<and>
   (\<exists>i<length ([[Seg4 0 0 10 4, Seg4 5 0 11 2, Seg1 3]] ! nat 0).
      (\<exists>d f. [[Seg4 0 0 10 4, Seg4 5 0 11 2, Seg1 3]] ! nat 0 ! i = Seg4 d f 11 2)
      \<and> generated_columns ([[Seg4 0 0 10 4, Seg4 5 0 11 2, Seg1 3]] ! nat 0) ! i = 5
      \<and> (\<forall>j<i. generated_columns ([[Seg4 0 0 10 4, Seg4 5 0 11 2, Seg1 3]] ! nat 0) ! j < 5))"
proof -
  have "remapPosition (0, 5) [[Seg4 0 0 10 4, Seg4 5 0 11 2, Seg1 3]] = Some (11, 2)"
    by (simp add: remapPosition_def)
  then show ?thesis
    by (simp only: remapPosition_exact)
qed

text \<open>
  Claim C4, as the source has it. The claim counts every entry of length 4 or more as
  mapped; \<open>remapPosition\<close> tracks entries of length exactly 4, so a named entry at the
  column gives none. And an entry of length 4 at the column is not found when an
  earlier entry has already reached the column.
\<close>

theorem remapPosition_counterexample:
  "remapPosition (0, 0) [[Seg5 0 0 3 4 0]] = None
   \<and> remapPosition (0, 2) [[Seg1 2, Seg4 0 0 3 4]] = None"
  by (simp add: remapPosition_def)

section \<open>Malformed map data\<close>

lemma vlqChars_BASE64: "vlqChars = BASE64_CHARS"
  by (simp add: vlqChars_def BASE64_CHARS_def)

lemma mem_map_of_char: "(of_char c :: nat) \<in> set (map of_char xs) \<longleftrightarrow> c \<in> set xs"
  by (induction xs) auto

lemma in_vlqChars_iff:
  "c \<in> set vlqChars \<longleftrightarrow>
     (let i = (of_char c :: nat)
      in (65 \<le> i \<and> i < 91) \<or> (97 \<le> i \<and> i < 123) \<or> (48 \<le> i \<and> i < 58) \<or> i = 43 \<or> i = 47)"
proof -
  have "c \<in> set BASE64_CHARS \<longleftrightarrow> (of_char c :: nat) \<in> set (map of_char BASE64_CHARS)"
    by (simp only: mem_map_of_char)
  also have "\<dots> \<longleftrightarrow> (of_char c :: nat) \<in> set ([65..<91] @ [97..<123] @ [48..<58] @ [43, 47])"
    by (simp only: base64_codes)
  also have "\<dots> \<longleftrightarrow> (let i = (of_char c :: nat)
      in (65 \<le> i \<and> i < 91) \<or> (97 \<le> i \<and> i < 123) \<or> (48 \<le> i \<and> i < 58) \<or> i = 43 \<or> i = 47)"
    unfolding Let_def set_append set_upt by auto
  finally show ?thesis
    by (simp only: vlqChars_BASE64)
qed

lemma in_continuation_iff:
  "c \<in> set (drop 32 vlqChars) \<longleftrightarrow>
     (let i = (of_char c :: nat)
      in (103 \<le> i \<and> i < 123) \<or> (48 \<le> i \<and> i < 58) \<or> i = 43 \<or> i = 47)"
proof -
  have d: "drop 32 ([65..<91] @ [97..<123] @ [48..<58] @ [43, 47::nat])
           = [103..<123] @ [48..<58] @ [43, 47]"
    by simp
  have "c \<in> set (drop 32 BASE64_CHARS)
        \<longleftrightarrow> (of_char c :: nat) \<in> set (map of_char (drop 32 BASE64_CHARS))"
    by (simp only: mem_map_of_char)
  also have "\<dots> \<longleftrightarrow> (of_char c :: nat) \<in> set ([103..<123] @ [48..<58] @ [43, 47])"
    by (simp only: drop_map [symmetric] base64_codes d)
  also have "\<dots> \<longleftrightarrow> (let i = (of_char c :: nat)
      in (103 \<le> i \<and> i < 123) \<or> (48 \<le> i \<and> i < 58) \<or> i = 43 \<or> i = 47)"
    unfolding Let_def set_append set_upt by auto
  finally show ?thesis
    by (simp only: vlqChars_BASE64)
qed

text \<open>What the inner loop does with its first character.\<close>

lemma of_char_int_less_256: "(of_char c :: int) < 256" "0 \<le> (of_char c :: int)"
proof -
  have "(of_char c :: int) = int (of_char c)" by (rule of_nat_of_char [symmetric])
  moreover have "(of_char c :: nat) < 256" by simp
  ultimately show "(of_char c :: int) < 256" "0 \<le> (of_char c :: int)" by simp_all
qed

lemma js_and_7F_char:
  "js_and (of_char c) 0x7F = (of_char c :: int) \<longleftrightarrow> (of_char c :: nat) < 128"
proof -
  have i: "(of_char c :: int) = int (of_char c)" by (rule of_nat_of_char [symmetric])
  have "js_and (of_char c) 0x7F = (of_char c :: int) mod 128"
    using of_char_int_less_256 [of c] by (simp add: js_and_def to_int32_id int_and_127)
  then show ?thesis
    unfolding i by (auto simp: zmod_int [symmetric])
qed

lemma decodeVLQ_group_invalid_head:
  assumes "c \<notin> set vlqChars"
  shows "decodeVLQ_group shift vlq (c # rest) = Inl (InvalidMappingCharacter c)"
proof (cases "(of_char c :: nat) < 128")
  case False
  then have "js_and (of_char c) 0x7F \<noteq> (of_char c :: int)"
    by (simp add: js_and_7F_char)
  then show ?thesis by (simp add: Let_def)
next
  case True
  then have v: "js_and (of_char c) 0x7F = (of_char c :: int)"
    by (simp add: js_and_7F_char)
  have "vlqTable ! (of_char c) = 0xFF"
    using assms True by (simp add: vlqTable_nth in_vlqChars_iff Let_def) 
  then show ?thesis by (simp add: Let_def v)
qed

lemma decodeVLQ_group_valid_head:
  assumes "c \<in> set vlqChars"
  shows "decodeVLQ_group shift vlq (c # rest) =
     (let index = vlqTable ! (of_char c);
          vlq' = js_or vlq (js_shl (js_and index 31) shift)
      in if c \<in> set (drop 32 vlqChars) then decodeVLQ_group (shift + 5) vlq' rest
         else Inr (vlq', rest))"
proof -
  have lt: "(of_char c :: nat) < 128"
    using assms by (auto simp: in_vlqChars_iff Let_def)
  then have v: "js_and (of_char c) 0x7F = (of_char c :: int)"
    by (simp add: js_and_7F_char)
  have idx: "vlqTable ! (of_char c) \<noteq> 0xFF" "0 \<le> vlqTable ! (of_char c)"
       "vlqTable ! (of_char c) < 64"
       "vlqTable ! (of_char c) < 32 \<longleftrightarrow> c \<notin> set (drop 32 vlqChars)"
    using assms lt by (auto simp: vlqTable_nth in_vlqChars_iff in_continuation_iff Let_def)
  have "js_and (vlqTable ! (of_char c)) 32 = 0 \<longleftrightarrow> c \<notin> set (drop 32 vlqChars)"
    using js_and_index_32 [OF idx(2,3)] idx(4) by simp
  then show ?thesis
    using idx(1) by (simp add: Let_def v)
qed

lemma decodeVLQ_group_invalid:
  "c \<in> set s \<Longrightarrow> c \<notin> set vlqChars \<Longrightarrow>
   isl (decodeVLQ_group shift vlq s)
   \<or> (\<exists>v rest. decodeVLQ_group shift vlq s = Inr (v, rest) \<and> c \<in> set rest)"
proof (induction s arbitrary: shift vlq)
  case Nil
  then show ?case by simp
next
  case (Cons x xs)
  show ?case
  proof (cases "x \<in> set vlqChars")
    case False
    then show ?thesis by (simp add: decodeVLQ_group_invalid_head del: decodeVLQ_group.simps)
  next
    case True
    with Cons.prems have c: "c \<in> set xs" by auto
    show ?thesis
    proof (cases "x \<in> set (drop 32 vlqChars)")
      case False
      with True c show ?thesis
        by (simp add: decodeVLQ_group_valid_head Let_def del: decodeVLQ_group.simps)
    next
      case cont: True
      from Cons.IH [OF c Cons.prems(2)] True cont c
      show ?thesis
        by (auto simp: decodeVLQ_group_valid_head Let_def simp del: decodeVLQ_group.simps)
    qed
  qed
qed

lemma decodeVLQ_group_unterminated:
  "s \<noteq> [] \<Longrightarrow> last s \<in> set (drop 32 vlqChars) \<Longrightarrow>
   isl (decodeVLQ_group shift vlq s)
   \<or> (\<exists>v rest. decodeVLQ_group shift vlq s = Inr (v, rest) \<and> rest \<noteq> [] \<and> last rest = last s)"
proof (induction s arbitrary: shift vlq)
  case Nil
  then show ?case by simp
next
  case (Cons x xs)
  show ?case
  proof (cases "x \<in> set vlqChars")
    case False
    then show ?thesis by (simp add: decodeVLQ_group_invalid_head del: decodeVLQ_group.simps)
  next
    case True
    show ?thesis
    proof (cases "xs = []")
      case Nil: True
      with Cons.prems True show ?thesis
        by (simp add: decodeVLQ_group_valid_head Let_def del: decodeVLQ_group.simps(2))
    next
      case more: False
      with Cons.prems have l: "last xs \<in> set (drop 32 vlqChars)" "last (x # xs) = last xs"
        by simp_all
      show ?thesis
      proof (cases "x \<in> set (drop 32 vlqChars)")
        case False
        with True more l show ?thesis
          by (simp add: decodeVLQ_group_valid_head Let_def del: decodeVLQ_group.simps)
      next
        case cont: True
        from Cons.IH [OF more l(1)] True cont l(2)
        show ?thesis
          by (auto simp: decodeVLQ_group_valid_head Let_def simp del: decodeVLQ_group.simps)
      qed
    qed
  qed
qed

lemma decodeVLQ_loop_invalid:
  "c \<in> set s \<Longrightarrow> c \<notin> set vlqChars \<Longrightarrow> isl (decodeVLQ_loop s result)"
proof (induction s result rule: decodeVLQ_loop.induct)
  case (1 result)
  then show ?case by simp
next
  case (2 ch cs result)
  from decodeVLQ_group_invalid [OF "2.prems", of 0 0]
  show ?case
  proof
    assume "isl (decodeVLQ_group 0 0 (ch # cs))"
    then show ?thesis
      by (cases "decodeVLQ_group 0 0 (ch # cs)") (simp_all del: decodeVLQ_group.simps)
  next
    assume "\<exists>v rest. decodeVLQ_group 0 0 (ch # cs) = Inr (v, rest) \<and> c \<in> set rest"
    then obtain v rest where g: "decodeVLQ_group 0 0 (ch # cs) = Inr (v, rest)" "c \<in> set rest"
      by blast
    from "2.IH" [OF g(1) refl refl g(2) "2.prems"(2)] g(1)
    show ?thesis by (simp del: decodeVLQ_group.simps)
  qed
qed

lemma decodeVLQ_loop_unterminated:
  "s \<noteq> [] \<Longrightarrow> last s \<in> set (drop 32 vlqChars) \<Longrightarrow> isl (decodeVLQ_loop s result)"
proof (induction s result rule: decodeVLQ_loop.induct)
  case (1 result)
  then show ?case by simp
next
  case (2 ch cs result)
  from decodeVLQ_group_unterminated [OF "2.prems", of 0 0]
  show ?case
  proof
    assume "isl (decodeVLQ_group 0 0 (ch # cs))"
    then show ?thesis
      by (cases "decodeVLQ_group 0 0 (ch # cs)") (simp_all del: decodeVLQ_group.simps)
  next
    assume "\<exists>v rest. decodeVLQ_group 0 0 (ch # cs) = Inr (v, rest) \<and> rest \<noteq> []
              \<and> last rest = last (ch # cs)"
    then obtain v rest where g: "decodeVLQ_group 0 0 (ch # cs) = Inr (v, rest)" "rest \<noteq> []"
        "last rest = last (ch # cs)"
      by blast
    from g(3) "2.prems"(2) have "last rest \<in> set (drop 32 vlqChars)" by simp
    from "2.IH" [OF g(1) refl refl g(2) this] g(1)
    show ?thesis by (simp del: decodeVLQ_group.simps)
  qed
qed

lemma parseWithLines_entry_malformed:
  assumes "malformed_segment seg"
  shows "isl (parseWithLines_entry seg st)"
proof (cases "decodeVLQ seg")
  case (Inl e)
  then show ?thesis by (simp add: parseWithLines_entry_def)
next
  case (Inr r)
  with assms have "length r \<noteq> 1" "length r \<noteq> 4" "length r \<noteq> 5"
    by (simp_all add: malformed_segment_def)
  then show ?thesis
    using Inr by (auto simp: parseWithLines_entry_def split: list.splits)
qed

lemma parseWithLines_line_malformed:
  "seg \<in> set entries \<Longrightarrow> malformed_segment seg \<Longrightarrow> isl (parseWithLines_line entries st)"
proof (induction entries arbitrary: st)
  case Nil
  then show ?case by simp
next
  case (Cons entry entries)
  show ?case
  proof (cases "parseWithLines_entry entry st")
    case (Inl e)
    then show ?thesis by simp
  next
    case (Inr r)
    obtain x st' where r: "r = (x, st')" by (cases r)
    have "seg \<noteq> entry"
      using parseWithLines_entry_malformed [OF Cons.prems(2), of st] Inr by auto
    with Cons.prems have "seg \<in> set entries" by simp
    from Cons.IH [OF this Cons.prems(2), of st'] Inr r
    show ?thesis by (cases "parseWithLines_line entries st'") auto
  qed
qed

lemma parseWithLines_lines_malformed:
  "seg \<in> set (concat (map (\<lambda>line. if length line = 0 then [] else split_on CHR '','' line) ls))
   \<Longrightarrow> malformed_segment seg \<Longrightarrow> isl (parseWithLines_lines ls st)"
proof (induction ls arbitrary: st)
  case Nil
  then show ?case by simp
next
  case (Cons line rest)
  let ?first = "if length line = 0 then Inr ([], st)
                else parseWithLines_line (split_on CHR '','' line) st"
  show ?case
  proof (cases ?first)
    case (Inl e)
    then show ?thesis by simp
  next
    case (Inr r)
    obtain l st' where r: "r = (l, st')" by (cases r)
    have "\<not> (length line \<noteq> 0 \<and> seg \<in> set (split_on CHR '','' line))"
    proof
      assume a: "length line \<noteq> 0 \<and> seg \<in> set (split_on CHR '','' line)"
      then have "isl (parseWithLines_line (split_on CHR '','' line) st)"
        using Cons.prems(2) by (intro parseWithLines_line_malformed) simp_all
      with a Inr show False by auto
    qed
    with Cons.prems(1)
    have "seg \<in> set (concat (map (\<lambda>line. if length line = 0 then []
                                         else split_on CHR '','' line) rest))"
      by (auto split: if_splits)
    from Cons.IH [OF this Cons.prems(2), of st'] Inr r
    show ?thesis by (cases "parseWithLines_lines rest st'") auto
  qed
qed

text \<open>
  Claim C9: \<open>decodeVLQ\<close> throws on an unterminated continuation (the last character
  carries the continuation bit: it is one of the last 32 characters of the alphabet), on
  a character outside the base64 alphabet, and on a character whose code is above
  \<open>0x7F\<close>; \<open>parseWithLines\<close> throws when a segment of the mappings is malformed, that
  is, when \<open>decodeVLQ\<close> throws on it or gives an arity other than 1, 4 or 5. In each
  case the result is the error and no segment.
\<close>

theorem malformed_input_rejected:
  "(m1 \<noteq> [] \<and> last m1 \<in> set (drop 32 vlqChars) \<longrightarrow> isl (decodeVLQ m1))
   \<and> (c2 \<in> set m2 \<and> c2 \<notin> set vlqChars \<longrightarrow> isl (decodeVLQ m2))
   \<and> (c3 \<in> set m3 \<and> 0x7F < (of_char c3 :: nat) \<longrightarrow> isl (decodeVLQ m3))
   \<and> (rt_parse_base64 rt b = Inr j \<and> seg \<in> set (segments_of_mappings (json_mappings j))
        \<and> malformed_segment seg \<longrightarrow> isl (parseWithLines rt b))"
proof (intro conjI impI)
  assume "m1 \<noteq> [] \<and> last m1 \<in> set (drop 32 vlqChars)"
  then show "isl (decodeVLQ m1)"
    by (simp add: decodeVLQ_def decodeVLQ_loop_unterminated)
next
  assume "c2 \<in> set m2 \<and> c2 \<notin> set vlqChars"
  then show "isl (decodeVLQ m2)"
    using decodeVLQ_loop_invalid [of c2 m2 "[]"] by (simp add: decodeVLQ_def)
next
  assume a: "c3 \<in> set m3 \<and> 0x7F < (of_char c3 :: nat)"
  then have "c3 \<notin> set vlqChars"
    by (auto simp: in_vlqChars_iff Let_def)
  with a show "isl (decodeVLQ m3)"
    using decodeVLQ_loop_invalid [of c3 m3 "[]"] by (simp add: decodeVLQ_def)
next
  assume a: "rt_parse_base64 rt b = Inr j \<and> seg \<in> set (segments_of_mappings (json_mappings j))
        \<and> malformed_segment seg"
  then have "isl (parseWithLines_lines (split_on CHR '';'' (json_mappings j)) (0, 0))"
    by (intro parseWithLines_lines_malformed [of seg]) (simp_all add: segments_of_mappings_def)
  with a show "isl (parseWithLines rt b)"
    by (cases "parseWithLines_lines (split_on CHR '';'' (json_mappings j)) (0, 0)")
       (simp_all add: parseWithLines_def)
qed



lemma decodeVLQ_AA: "decodeVLQ ''AA'' = Inr [0, 0]"
  using decodeVLQ_loop_vlq_of [of 0 "''A''" "[]"]
        decodeVLQ_loop_vlq_of [of 0 "[]" "[0]"]
  by (simp add: vlq_of_0 decodeVLQ_def del: decodeVLQ_loop.simps(2))

theorem malformed_input_rejected_witness:
  "(''g'' \<noteq> [] \<and> last ''g'' \<in> set (drop 32 vlqChars)) \<and> isl (decodeVLQ ''g'')
   \<and> (CHR ''!'' \<in> set ''A!'' \<and> CHR ''!'' \<notin> set vlqChars) \<and> isl (decodeVLQ ''A!'')
   \<and> (CHR 0xE9 \<in> set [CHR 0xE9] \<and> 0x7F < (of_char (CHR 0xE9) :: nat))
   \<and> isl (decodeVLQ [CHR 0xE9])
   \<and> (rt_parse_base64 (fixed_document_runtime ''A;AA'') [] =
         Inr \<lparr> json_version = 3, json_file = [], json_sources = [], json_mappings = ''A;AA'',
               json_names = [], json_sourcesContent = [] \<rparr>
       \<and> ''AA'' \<in> set (segments_of_mappings ''A;AA'') \<and> malformed_segment ''AA'')
   \<and> isl (parseWithLines (fixed_document_runtime ''A;AA'') [])"
proof -
  have h1: "''g'' \<noteq> [] \<and> last ''g'' \<in> set (drop 32 vlqChars)"
    by (simp add: in_continuation_iff)
  have h2: "CHR ''!'' \<in> set ''A!'' \<and> CHR ''!'' \<notin> set vlqChars"
    by (simp add: in_vlqChars_iff)
  have h3: "CHR 0xE9 \<in> set [CHR 0xE9] \<and> 0x7F < (of_char (CHR 0xE9) :: nat)"
    by simp
  have h4: "rt_parse_base64 (fixed_document_runtime ''A;AA'') [] =
         Inr \<lparr> json_version = 3, json_file = [], json_sources = [], json_mappings = ''A;AA'',
               json_names = [], json_sourcesContent = [] \<rparr>
       \<and> ''AA'' \<in> set (segments_of_mappings
             (json_mappings \<lparr> json_version = 3, json_file = [], json_sources = [],
                json_mappings = ''A;AA'', json_names = [], json_sourcesContent = [] \<rparr>))
       \<and> malformed_segment ''AA''"
    by (simp add: fixed_document_runtime_def segments_of_mappings_def malformed_segment_def
        decodeVLQ_AA)
  from malformed_input_rejected [of "''g''" "CHR ''!''" "''A!''" "CHR 0xE9" "[CHR 0xE9]"
      "fixed_document_runtime ''A;AA''" "[]"
      "\<lparr> json_version = 3, json_file = [], json_sources = [], json_mappings = ''A;AA'',
         json_names = [], json_sourcesContent = [] \<rparr>" "''AA''"] h1 h2 h3 h4
  show ?thesis by simp
qed

section \<open>Paths with the same source path\<close>

lemma split_tail_append:
  assumes "list_all is_ext_char t" "\<not> is_ext_char c"
  shows "split_tail (s @ c # t) = (s @ [c], t)"
proof -
  have all: "\<forall>x\<in>set (rev t). is_ext_char x"
    using assms(1) by (simp add: list_all_iff)
  have "rev (s @ c # t) = rev t @ c # rev s" by simp
  moreover have "takeWhile is_ext_char (rev t @ c # rev s) = rev t"
    using all assms(2) by (subst takeWhile_append2) auto
  moreover have "dropWhile is_ext_char (rev t @ c # rev s) = c # rev s"
    using all assms(2) by (subst dropWhile_append2) auto
  ultimately show ?thesis by (simp add: split_tail_def)
qed

lemma split_tail_decompose:
  assumes "split_tail path = (front, t)"
  shows "path = front @ t" "list_all is_ext_char t"
proof -
  from assms have f: "front = rev (dropWhile is_ext_char (rev path))"
    and t: "t = rev (takeWhile is_ext_char (rev path))"
    by (simp_all add: split_tail_def)
  have "rev (rev path)
        = rev (takeWhile is_ext_char (rev path) @ dropWhile is_ext_char (rev path))"
    by (simp only: takeWhile_dropWhile_id)
  then show "path = front @ t"
    by (simp only: rev_rev_ident rev_append f t)
  show "list_all is_ext_char t"
    unfolding t list_all_iff by (auto dest: set_takeWhileD)
qed

lemma removeExtension_cases:
  "removeExtension q = q
   \<or> (\<exists>t. q = removeExtension q @ CHR ''.'' # t \<and> list_all is_ext_char t)"
proof -
  obtain front t where st: "split_tail q = (front, t)" by (cases "split_tail q")
  note d = split_tail_decompose [OF st]
  show ?thesis
  proof (cases "t \<noteq> [] \<and> front \<noteq> [] \<and> last front = CHR ''.''")
    case False
    then have "removeExtension q = q" by (auto simp: removeExtension_def st)
    then show ?thesis ..
  next
    case True
    then have r: "removeExtension q = butlast front" by (simp add: removeExtension_def st)
    from True have "front = butlast front @ [CHR ''.'']"
      by (metis append_butlast_last_id)
    then have "q = butlast front @ CHR ''.'' # t" using d(1) by (metis append.assoc append_Cons append_Nil)
    with r d(2) show ?thesis by auto
  qed
qed

lemma two_extensions_of_source:
  assumes "list_all is_ext_char t"
  shows "getTranspiledExtensionsFromPath (s @ CHR ''.'' # t) =
     (if fst (split_tail s) \<noteq> [] \<and> last (fst (split_tail s)) = CHR ''.''
      then Some (CHR ''.'' # snd (split_tail s), CHR ''.'' # t) else None)"
proof -
  have "split_tail (s @ CHR ''.'' # t) = (s @ [CHR ''.''], t)"
    using assms by (intro split_tail_append) (simp_all add: is_ext_char_def)
  then show ?thesis
    by (simp add: getTranspiledExtensionsFromPath_def split_beta)
qed

lemma same_source_same_extension:
  assumes "removeExtension q1 = s" "q1 \<noteq> s" "removeExtension q2 = s" "q2 \<noteq> s"
    and "getTranspiledExtensionsFromPath q1 = Some (a1, b1)"
    and "getTranspiledExtensionsFromPath q2 = Some (a2, b2)"
  shows "a1 = a2"
proof -
  from removeExtension_cases [of q1] assms(1,2)
  obtain t1 where q1: "q1 = s @ CHR ''.'' # t1" "list_all is_ext_char t1" by auto
  from removeExtension_cases [of q2] assms(3,4)
  obtain t2 where q2: "q2 = s @ CHR ''.'' # t2" "list_all is_ext_char t2" by auto
  from assms(5) have "a1 = CHR ''.'' # snd (split_tail s)"
    unfolding q1(1) two_extensions_of_source [OF q1(2)] by (simp split: if_splits)
  moreover from assms(6) have "a2 = CHR ''.'' # snd (split_tail s)"
    unfolding q2(1) two_extensions_of_source [OF q2(2)] by (simp split: if_splits)
  ultimately show ?thesis by simp
qed

section \<open>The host: documents without a transpiler\<close>

lemma ext_a_ts: "getExtensionFromPath ''/a.ts'' = ''.ts''"
  by (simp add: getExtensionFromPath_def split_tail_def is_ext_char_def)

text \<open>
  Claim C7, amended: after \<open>addOrUpdateDocument(doc)\<close> for a document whose path has no
  extension recognised by a transpiler, the path is a member of \<open>scriptFileNames\<close>, and
  \<open>pathMap\<close> maps the path to \<open>doc\<close> when no document was registered for it and to the
  document registered before otherwise.
\<close>

theorem addOrUpdateDocument_plain:
  assumes "transpilers env (getExtensionFromPath (fileURLToPath env (doc_uri (documents h doc))))
           = None"
  shows "fileURLToPath env (doc_uri (documents h doc))
           \<in> set (scriptFileNames (addOrUpdateDocument env doc h))
         \<and> pathMap (addOrUpdateDocument env doc h) (fileURLToPath env (doc_uri (documents h doc)))
           = (case pathMap h (fileURLToPath env (doc_uri (documents h doc))) of
                None \<Rightarrow> Some doc
              | Some registered \<Rightarrow> Some registered)"
  using assms
  by (auto simp: addOrUpdateDocument_def Let_def set_add_def split: option.splits)

theorem addOrUpdateDocument_plain_witness:
  "transpilers example_env (getExtensionFromPath
       (fileURLToPath example_env (doc_uri (documents example_host 0)))) = None
   \<and> ''/a.ts'' \<in> set (scriptFileNames (addOrUpdateDocument example_env 0 example_host))
   \<and> pathMap (addOrUpdateDocument example_env 0 example_host) ''/a.ts'' = Some 0"
proof -
  have p: "fileURLToPath example_env (doc_uri (documents example_host 0)) = ''/a.ts''"
    by (simp add: example_env_def example_host_def TSHost_def example_documents_def)
  have t: "transpilers example_env (getExtensionFromPath ''/a.ts'') = None"
    by (simp add: ext_a_ts example_env_def)
  have m: "pathMap example_host ''/a.ts'' = None"
    by (simp add: example_host_def TSHost_def)
  from addOrUpdateDocument_plain [of example_env example_host 0] p t m
  show ?thesis by simp
qed

text \<open>
  Claim C7, as the source has it. The claim has \<open>pathMap\<close> map the path to \<open>doc\<close> also
  when a document was registered before; the plain branch stores \<open>doc\<close> only under
  \<open>!pathMap.has(path)\<close>. Documents 0 and 1 have the same path; after both are added,
  the path is still mapped to document 0.
\<close>

theorem addOrUpdateDocument_registered_counterexample:
  "doc_uri (documents example_host 0) = doc_uri (documents example_host 1)
   \<and> transpilers example_env (getExtensionFromPath
        (fileURLToPath example_env (doc_uri (documents example_host 1)))) = None
   \<and> pathMap (addOrUpdateDocument example_env 1
               (addOrUpdateDocument example_env 0 example_host)) ''/a.ts'' = Some 0"
  by (simp add: addOrUpdateDocument_def Let_def set_add_def ext_a_ts example_env_def
      example_host_def TSHost_def example_documents_def)

section \<open>The host: a transpile that throws\<close>

text \<open>
  Claim C6, amended: after a transpile attempt for a source path that throws, the
  metadata of the path has no \<open>sourcemapLines\<close>, whether or not a transpilation succeeded
  before; \<open>parseErrors\<close> holds the thrown error and \<open>fatal\<close> is true; the
  \<open>transpiledDoc\<close> of earlier metadata is kept, and no document changes, so the mirror
  document keeps its last good text and version.
\<close>

theorem failed_transpile_clears_sourcemap:
  assumes "tr_compile transpiler sourcePath sourceCode = Throws e"
  shows "fst (doTranspileAndUpdateMeta transpiledDoc version transpiler sourcePath sourceCode h)
           = None
         \<and> fileMetaData
             (snd (doTranspileAndUpdateMeta transpiledDoc version transpiler sourcePath sourceCode h))
             sourcePath
           = Some \<lparr> meta_sourcemapLines = None,
                    meta_transpiledDoc =
                      (case fileMetaData h sourcePath of
                         None \<Rightarrow> Some transpiledDoc
                       | Some meta \<Rightarrow> meta_transpiledDoc meta),
                    meta_parseErrors = Some [e],
                    meta_fatal = True \<rparr>
         \<and> documents
             (snd (doTranspileAndUpdateMeta transpiledDoc version transpiler sourcePath sourceCode h))
           = documents h"
  using assms
  by (auto simp: doTranspileAndUpdateMeta_def createOrUpdateMeta_def split: option.splits)

lemma ext_m_civet: "getExtensionFromPath ''/m.civet'' = ''.civet''"
  by (simp add: getExtensionFromPath_def split_tail_def is_ext_char_def)

lemma exts_m_civet_tsx:
  "getTranspiledExtensionsFromPath ''/m.civet.tsx'' = Some (''.civet'', ''.tsx'')"
  by (simp add: getTranspiledExtensionsFromPath_def split_tail_def is_ext_char_def)

lemma remove_m_civet_tsx: "removeExtension ''/m.civet.tsx'' = ''/m.civet''"
  by (simp add: removeExtension_def split_tail_def is_ext_char_def)

lemmas example_simps =
  example_env_def example_transpiler_def example_host_def TSHost_def example_documents_def
  example_compile_def
  addOrUpdateDocument_def getScriptSnapshot_def getOrCreatePathSnapshot_def
  getCanonicalFileName_def initTranspiledDoc_def doTranspileAndUpdateMeta_def
  createOrUpdateMeta_def TextDocument_update_def new_snapshot_def Snap_def set_add_def
  ext_m_civet exts_m_civet_tsx remove_m_civet_tsx Let_def

lemma meta_after_success:
  "fileMetaData host_after_success ''/m.civet''
     = Some \<lparr> meta_sourcemapLines = Some [[Seg4 0 0 0 0]], meta_transpiledDoc = Some 3,
              meta_parseErrors = Some [], meta_fatal = False \<rparr>"
  by (simp add: host_after_success_def example_simps)

lemma meta_after_failure:
  "fileMetaData host_after_failure ''/m.civet''
     = Some \<lparr> meta_sourcemapLines = None, meta_transpiledDoc = Some 3,
              meta_parseErrors = Some [Thrown ''ParseError''], meta_fatal = True \<rparr>"
  by (simp add: host_after_failure_def host_before_failure_def host_after_success_def example_simps)

lemma mirror_after_failure:
  "doc_text (documents host_after_failure 3) = ''js:good''
   \<and> doc_version (documents host_after_failure 3) = 1"
  by (simp add: host_after_failure_def host_before_failure_def host_after_success_def example_simps)

lemma new_snapshot_frame [simp]:
  "fileMetaData (snd (new_snapshot path text h)) = fileMetaData h"
  "documents (snd (new_snapshot path text h)) = documents h"
  "pathMap (snd (new_snapshot path text h)) = pathMap h"
  "snapshotMap (snd (new_snapshot path text h)) path = Some (fst (new_snapshot path text h))"
  "snap_newText (snapshots (snapStore (snd (new_snapshot path text h)))
                   (fst (new_snapshot path text h))) = text"
  by (simp_all add: new_snapshot_def Snap_def Let_def)

lemma initTranspiledDoc_frame [simp]:
  "fileMetaData (snd (initTranspiledDoc env path h)) = fileMetaData h"
  "documents (snd (initTranspiledDoc env path h)) =
     (documents h)(nextDocument h := \<lparr> doc_uri = pathToFileURL env path,
        doc_languageId = ''none'', doc_version = - 1, doc_text = [] \<rparr>)"
  "fst (initTranspiledDoc env path h) = nextDocument h"
  by (simp_all add: initTranspiledDoc_def Let_def)

lemma doTranspile_other_path:
  "sourcePath \<noteq> path \<Longrightarrow>
   fileMetaData (snd (doTranspileAndUpdateMeta td v tr sourcePath code h)) path
     = fileMetaData h path"
  by (auto simp: doTranspileAndUpdateMeta_def createOrUpdateMeta_def TextDocument_update_def
      Let_def split: compile_outcome.splits option.splits)

lemma doTranspile_throws:
  assumes "tr_compile tr sourcePath code = Throws e"
  shows "doTranspileAndUpdateMeta td v tr sourcePath code h
         = (None, createOrUpdateMeta sourcePath td None (Some [e]) True h)"
  using assms by (simp add: doTranspileAndUpdateMeta_def)

lemma createOrUpdateMeta_fatal:
  "fatal_recorded (createOrUpdateMeta path td None (Some [e]) True h) path e"
  by (simp add: fatal_recorded_def createOrUpdateMeta_def split: option.splits)

lemma createOrUpdateMeta_frame [simp]:
  "documents (createOrUpdateMeta path td sm errs f h) = documents h"
  "pathMap (createOrUpdateMeta path td sm errs f h) = pathMap h"
  "snapshotMap (createOrUpdateMeta path td sm errs f h) = snapshotMap h"
  by (simp_all add: createOrUpdateMeta_def split: option.splits)

lemma getOrCreatePathSnapshot_unfold:
  "getOrCreatePathSnapshot env path h =
     (case snapshotMap h path of
        Some snapshot \<Rightarrow> (snapshot, h)
      | None \<Rightarrow>
          (case (case getTranspiledExtensionsFromPath path of
                   None \<Rightarrow> None
                 | Some exts \<Rightarrow> transpilers env (fst exts)) of
             Some transpiler \<Rightarrow>
               (case transpile_step env path transpiler h of
                  (transpiledDoc, transpiledCode, h2) \<Rightarrow>
                    (case transpiledCode of
                       Some code \<Rightarrow> new_snapshot path code h2
                     | None \<Rightarrow> new_snapshot path (doc_text (documents h2 transpiledDoc)) h2))
           | None \<Rightarrow> new_snapshot path (getPathSource env path h) h))"
  by (simp add: getOrCreatePathSnapshot_def transpile_step_def Let_def split_beta
      split: option.splits)

lemma transpile_step_keeps_fatal:
  assumes rec: "fatal_recorded g sp e"
    and src: "pathMap g sp = Some sd"
    and throws: "removeExtension q = sp \<Longrightarrow> q \<noteq> sp \<Longrightarrow>
        tr_compile tr2 sp (doc_text (documents g sd)) = Throws e"
  shows "fatal_recorded (snd (snd (transpile_step env q tr2 g))) sp e"
proof (cases "removeExtension q = sp")
  case False
  then show ?thesis
    using rec
    by (auto simp: transpile_step_def Let_def split_beta fatal_recorded_def
        doTranspile_other_path split: option.splits)
next
  case same: True
  show ?thesis
  proof (cases "q = sp")
    case True
    with same src rec show ?thesis
      by (simp add: transpile_step_def Let_def)
  next
    case False
    note thr = throws [OF same False]
    show ?thesis
    proof (cases "pathMap g q")
      case (Some d)
      with same src rec thr show ?thesis
        by (simp add: transpile_step_def Let_def doTranspile_throws createOrUpdateMeta_fatal)
    next
      case None
      show ?thesis
      proof (cases "sd = nextDocument g")
        case True
        with None same src rec show ?thesis
          by (simp add: transpile_step_def Let_def split_beta fatal_recorded_def)
      next
        case False
        with None same src rec thr show ?thesis
          by (simp add: transpile_step_def Let_def split_beta doTranspile_throws
              createOrUpdateMeta_fatal)
             (simp add: fatal_recorded_def)
      qed
    qed
  qed
qed

lemma getOrCreatePathSnapshot_keeps_fatal:
  assumes rec: "fatal_recorded g sp e"
    and src: "pathMap g sp = Some sd"
    and throws: "\<And>a b tr2. removeExtension q = sp \<Longrightarrow> q \<noteq> sp \<Longrightarrow>
        getTranspiledExtensionsFromPath q = Some (a, b) \<Longrightarrow> transpilers env a = Some tr2 \<Longrightarrow>
        tr_compile tr2 sp (doc_text (documents g sd)) = Throws e"
  shows "fatal_recorded (snd (getOrCreatePathSnapshot env q g)) sp e"
proof (cases "snapshotMap g q")
  case (Some s)
  with rec show ?thesis by (simp add: getOrCreatePathSnapshot_unfold)
next
  case None
  show ?thesis
  proof (cases "getTranspiledExtensionsFromPath q")
    case no_exts: None
    with None rec show ?thesis
      by (simp add: getOrCreatePathSnapshot_unfold fatal_recorded_def)
  next
    case (Some exts)
    obtain a b where exts: "exts = (a, b)" by (cases exts)
    show ?thesis
    proof (cases "transpilers env a")
      case no_tr: None
      with None Some exts rec show ?thesis
        by (simp add: getOrCreatePathSnapshot_unfold fatal_recorded_def)
    next
      case (Some tr2)
      have "fatal_recorded (snd (snd (transpile_step env q tr2 g))) sp e"
        using rec src
      proof (rule transpile_step_keeps_fatal)
        assume "removeExtension q = sp" "q \<noteq> sp"
        then show "tr_compile tr2 sp (doc_text (documents g sd)) = Throws e"
          using \<open>getTranspiledExtensionsFromPath q = Some exts\<close> exts Some
          by (intro throws) simp_all
      qed
      then show ?thesis
        using None \<open>getTranspiledExtensionsFromPath q = Some exts\<close> exts Some
        by (simp add: getOrCreatePathSnapshot_unfold fatal_recorded_def split_beta
            split: option.splits)
    qed
  qed
qed

text \<open>
  Claim C1: let \<open>getScriptSnapshot\<close> be called for a path that has no cached snapshot
  and is the transpiled path of a registered source document, with a registered mirror
  document of a lower version, and let \<open>compile\<close> throw \<open>e\<close> on the (non-empty) source.
  Then the call returns a snapshot, whose text is the text the mirror document had; the
  mirror document is unchanged, its version included; and a following \<open>getMeta\<close> for
  the source path gives metadata with \<open>fatal\<close> true and \<open>e\<close> as the recorded error.
\<close>

theorem transpile_failure_keeps_last_good:
  assumes path: "path = getCanonicalFileName env p"
    and nocache: "snapshotMap h path = None"
    and exts: "getTranspiledExtensionsFromPath path = Some (ext, target)"
    and tr: "transpilers env ext = Some transpiler"
    and src: "pathMap h (removeExtension path) = Some sourceDoc"
    and mirror: "pathMap h path = Some transpiledDoc"
    and newer: "doc_version (documents h sourceDoc) > doc_version (documents h transpiledDoc)"
    and nonempty: "doc_text (documents h sourceDoc) \<noteq> []"
    and throws: "tr_compile transpiler (removeExtension path) (doc_text (documents h sourceDoc))
                 = Throws e"
  shows "(case getScriptSnapshot env p h of
            (snapshot, h') \<Rightarrow>
              snap_newText (snapshots (snapStore h') snapshot)
                = doc_text (documents h transpiledDoc)
              \<and> snapshotMap h' path = Some snapshot
              \<and> pathMap h' path = Some transpiledDoc
              \<and> documents h' transpiledDoc = documents h transpiledDoc
              \<and> (case getMeta env (removeExtension path) h' of
                    (meta, h'') \<Rightarrow>
                      (case meta of
                         None \<Rightarrow> False
                       | Some m \<Rightarrow> meta_fatal m \<and> meta_parseErrors m = Some [e])))"
proof -
  define sp where "sp = removeExtension path"
  define g where "g = createOrUpdateMeta sp transpiledDoc None (Some [e]) True h"
  define kept where "kept = doc_text (documents h transpiledDoc)"
  have step: "transpile_step env path transpiler h = (transpiledDoc, None, g)"
    using src mirror newer nonempty throws
    by (simp add: transpile_step_def Let_def doTranspile_throws sp_def g_def)
  have first: "getScriptSnapshot env p h = new_snapshot path kept g"
    using nocache exts tr
    by (simp add: getScriptSnapshot_def path [symmetric] getOrCreatePathSnapshot_unfold step
        g_def kept_def)
  define h' where "h' = snd (new_snapshot path kept g)"
  define snapshot where "snapshot = fst (new_snapshot path kept g)"
  have pair: "getScriptSnapshot env p h = (snapshot, h')"
    by (simp add: first h'_def snapshot_def)
  have "fileMetaData h' = fileMetaData g"
    unfolding h'_def by (rule new_snapshot_frame(1))
  moreover have "fatal_recorded g sp e"
    unfolding g_def by (rule createOrUpdateMeta_fatal)
  ultimately have rec: "fatal_recorded h' sp e"
    by (simp only: fatal_recorded_def)
  have src': "pathMap h' sp = Some sourceDoc"
    using src by (simp add: h'_def g_def sp_def)
  have docs': "documents h' = documents h"
    by (simp add: h'_def g_def)
  have neq: "path \<noteq> sp"
    unfolding sp_def
  proof
    assume "path = removeExtension path"
    then have "removeExtension path = path" by (rule sym)
    with src have "pathMap h path = Some sourceDoc" by (simp only:)
    with mirror have "sourceDoc = transpiledDoc" by simp
    with newer show False by simp
  qed
  have "fatal_recorded (snd (getOrCreatePathSnapshot env (getTranspiledPath env sp) h')) sp e"
    using rec src'
  proof (rule getOrCreatePathSnapshot_keeps_fatal)
    fix a b tr2
    assume q: "removeExtension (getTranspiledPath env sp) = sp" "getTranspiledPath env sp \<noteq> sp"
      "getTranspiledExtensionsFromPath (getTranspiledPath env sp) = Some (a, b)"
      "transpilers env a = Some tr2"
    have "a = ext"
      using q(1,2) _ neq q(3) exts
      by (rule same_source_same_extension) (simp add: sp_def)
    with q(4) tr have "tr2 = transpiler" by simp
    with throws show "tr_compile tr2 sp (doc_text (documents h' sourceDoc)) = Throws e"
      by (simp add: docs' sp_def)
  qed
  then have meta: "case getMeta env sp h' of
      (meta, h'') \<Rightarrow> (case meta of None \<Rightarrow> False
                       | Some m \<Rightarrow> meta_fatal m \<and> meta_parseErrors m = Some [e])"
    by (simp add: getMeta_def Let_def split_beta fatal_recorded_def)
  have "snap_newText (snapshots (snapStore h') snapshot) = kept"
    "snapshotMap h' path = Some snapshot"
    "pathMap h' path = Some transpiledDoc"
    "documents h' transpiledDoc = documents h transpiledDoc"
    using mirror by (simp_all add: h'_def snapshot_def g_def)
  with meta show ?thesis
    by (simp add: pair kept_def sp_def)
qed

lemma before_failure_facts:
  "snapshotMap host_before_failure ''/m.civet.tsx'' = None"
  "pathMap host_before_failure ''/m.civet'' = Some 2"
  "pathMap host_before_failure ''/m.civet.tsx'' = Some 3"
  "documents host_before_failure 2 =
     \<lparr> doc_uri = ''file:///m.civet'', doc_languageId = ''civet'', doc_version = 2,
       doc_text = ''bad'' \<rparr>"
  "documents host_before_failure 3 =
     \<lparr> doc_uri = ''file:///m.civet.tsx'', doc_languageId = ''none'', doc_version = 1,
       doc_text = ''js:good'' \<rparr>"
  "fileMetaData host_before_failure ''/m.civet''
     = Some \<lparr> meta_sourcemapLines = Some [[Seg4 0 0 0 0]], meta_transpiledDoc = Some 3,
              meta_parseErrors = Some [], meta_fatal = False \<rparr>"
  by (simp_all add: host_before_failure_def host_after_success_def example_simps)

theorem transpile_failure_keeps_last_good_witness:
  "''/m.civet.tsx'' = getCanonicalFileName example_env ''/m.civet.tsx''
   \<and> snapshotMap host_before_failure ''/m.civet.tsx'' = None
   \<and> getTranspiledExtensionsFromPath ''/m.civet.tsx'' = Some (''.civet'', ''.tsx'')
   \<and> transpilers example_env ''.civet'' = Some example_transpiler
   \<and> pathMap host_before_failure (removeExtension ''/m.civet.tsx'') = Some 2
   \<and> pathMap host_before_failure ''/m.civet.tsx'' = Some 3
   \<and> doc_version (documents host_before_failure 2) > doc_version (documents host_before_failure 3)
   \<and> doc_text (documents host_before_failure 2) \<noteq> []
   \<and> tr_compile example_transpiler (removeExtension ''/m.civet.tsx'')
         (doc_text (documents host_before_failure 2)) = Throws (Thrown ''ParseError'')
   \<and> (case getScriptSnapshot example_env ''/m.civet.tsx'' host_before_failure of
         (snapshot, h') \<Rightarrow>
           snap_newText (snapshots (snapStore h') snapshot) = ''js:good''
           \<and> snapshotMap h' ''/m.civet.tsx'' = Some snapshot
           \<and> pathMap h' ''/m.civet.tsx'' = Some 3
           \<and> documents h' 3 = documents host_before_failure 3
           \<and> (case getMeta example_env (removeExtension ''/m.civet.tsx'') h' of
                 (meta, h'') \<Rightarrow>
                   (case meta of
                      None \<Rightarrow> False
                    | Some m \<Rightarrow> meta_fatal m
                        \<and> meta_parseErrors m = Some [Thrown ''ParseError''])))"
proof -
  have a1: "''/m.civet.tsx'' = getCanonicalFileName example_env ''/m.civet.tsx''"
    by (simp add: getCanonicalFileName_def example_env_def)
  have a4: "transpilers example_env ''.civet'' = Some example_transpiler"
    by (simp add: example_env_def)
  have a5: "pathMap host_before_failure (removeExtension ''/m.civet.tsx'') = Some 2"
    by (simp add: remove_m_civet_tsx before_failure_facts)
  have a7: "doc_version (documents host_before_failure 2)
              > doc_version (documents host_before_failure 3)"
    by (simp add: before_failure_facts)
  have a8: "doc_text (documents host_before_failure 2) \<noteq> []"
    by (simp add: before_failure_facts)
  have a9: "tr_compile example_transpiler (removeExtension ''/m.civet.tsx'')
         (doc_text (documents host_before_failure 2)) = Throws (Thrown ''ParseError'')"
    by (simp add: before_failure_facts example_transpiler_def example_compile_def)
  note main = transpile_failure_keeps_last_good [OF a1 before_failure_facts(1) exts_m_civet_tsx
      a4 a5 before_failure_facts(3) a7 a8 a9]
  have t: "doc_text (documents host_before_failure 3) = ''js:good''"
    by (simp add: before_failure_facts)
  show ?thesis
    using a1 before_failure_facts(1) exts_m_civet_tsx a4 a5 before_failure_facts(3) a7 a8 a9
      main [unfolded t]
    by (simp only: simp_thms)
qed

theorem failed_transpile_clears_sourcemap_witness:
  "tr_compile example_transpiler ''/m.civet'' ''bad'' = Throws (Thrown ''ParseError'')
   \<and> fst (doTranspileAndUpdateMeta 3 2 example_transpiler ''/m.civet'' ''bad''
             host_before_failure) = None
   \<and> fileMetaData (snd (doTranspileAndUpdateMeta 3 2 example_transpiler ''/m.civet'' ''bad''
                           host_before_failure)) ''/m.civet''
       = Some \<lparr> meta_sourcemapLines = None, meta_transpiledDoc = Some 3,
                meta_parseErrors = Some [Thrown ''ParseError''], meta_fatal = True \<rparr>
   \<and> documents (snd (doTranspileAndUpdateMeta 3 2 example_transpiler ''/m.civet'' ''bad''
                        host_before_failure)) = documents host_before_failure"
proof -
  have c: "tr_compile example_transpiler ''/m.civet'' ''bad'' = Throws (Thrown ''ParseError'')"
    by (simp add: example_transpiler_def example_compile_def)
  from failed_transpile_clears_sourcemap [OF c, of 3 2 host_before_failure] c
  show ?thesis by (simp add: before_failure_facts)
qed

text \<open>
  Claim C6, as the source has it. The claim keeps the map of the latest successful
  transpilation in \<open>sourcemapLines\<close> after a failed attempt; \<open>doTranspileAndUpdateMeta\<close>
  passes \<open>undefined\<close> for it, and \<open>createOrUpdateMeta\<close> stores that. After a success
  and then a failure, the field is empty.
\<close>

theorem failed_transpile_sourcemap_counterexample:
  "map_option meta_sourcemapLines (fileMetaData host_after_success ''/m.civet'')
     = Some (Some [[Seg4 0 0 0 0]])
   \<and> tr_compile example_transpiler ''/m.civet'' (doc_text (documents host_before_failure 2))
     = Throws (Thrown ''ParseError'')
   \<and> map_option meta_sourcemapLines (fileMetaData host_after_failure ''/m.civet'') = Some None"
  by (simp add: meta_after_success meta_after_failure before_failure_facts
      example_transpiler_def example_compile_def)

section \<open>Change ranges of snapshots\<close>

declare fullDiff_suffix.simps [simp del] fullDiff_loop.simps [simp del]

lemma lcp_length_le:
  "length (longest_common_prefix xs ys) \<le> min (length xs) (length ys)"
  by (induction xs ys rule: longest_common_prefix.induct) auto

lemma lcp_nth:
  "i < length (longest_common_prefix xs ys) \<Longrightarrow> xs ! i = ys ! i"
proof (induction xs ys arbitrary: i rule: longest_common_prefix.induct)
  case (1 x xs y ys)
  then show ?case by (cases i) (auto split: if_splits)
qed simp_all

lemma lcp_mismatch:
  "length (longest_common_prefix xs ys) < min (length xs) (length ys) \<Longrightarrow>
   xs ! length (longest_common_prefix xs ys) \<noteq> ys ! length (longest_common_prefix xs ys)"
  by (induction xs ys rule: longest_common_prefix.induct) auto

lemma fullDiff_loop_skip:
  assumes "start \<le> common_prefix_length oldText newText"
  shows "fullDiff_loop oldText newText start
         = fullDiff_loop oldText newText (common_prefix_length oldText newText)"
  using assms
proof (induction "common_prefix_length oldText newText - start" arbitrary: start)
  case 0
  then show ?case by simp
next
  case (Suc n)
  from Suc.hyps(2) have lt: "start < common_prefix_length oldText newText" by arith
  then have same: "oldText ! start = newText ! start"
    unfolding common_prefix_length_def by (rule lcp_nth)
  have "start < min (length oldText) (length newText)"
    using lt lcp_length_le [of oldText newText] by (simp add: common_prefix_length_def)
  then have "fullDiff_loop oldText newText start = fullDiff_loop oldText newText (start + 1)"
    using same by (subst fullDiff_loop.simps) (simp add: Let_def)
  also have "\<dots> = fullDiff_loop oldText newText (common_prefix_length oldText newText)"
    using Suc.hyps(2) lt by (intro Suc.hyps(1)) simp_all
  finally show ?case .
qed

lemma fullDiff_suffix_count:
  assumes "i \<le> min (common_suffix_length oldText newText) stop"
    and "stop \<le> min (length oldText) (length newText)"
  shows "fullDiff_suffix oldText newText stop i end'
         = end' - int (min (common_suffix_length oldText newText) stop - i)"
  using assms(1)
proof (induction "min (common_suffix_length oldText newText) stop - i" arbitrary: i end')
  case 0
  then have i: "i = min (common_suffix_length oldText newText) stop" by simp
  show ?case
  proof (cases "i < stop")
    case False
    then show ?thesis using i by (subst fullDiff_suffix.simps) simp
  next
    case True
    with i have s: "i = common_suffix_length oldText newText" by simp
    have "length (longest_common_prefix (rev oldText) (rev newText))
          < min (length (rev oldText)) (length (rev newText))"
      using True assms(2) s by (simp add: common_suffix_length_def)
    from lcp_mismatch [OF this]
    have "rev oldText ! i \<noteq> rev newText ! i"
      by (simp add: s common_suffix_length_def)
    moreover have "i < length oldText" "i < length newText"
      using True assms(2) by simp_all
    ultimately have "oldText ! (length oldText - i - 1) \<noteq> newText ! (length newText - i - 1)"
      by (simp add: rev_nth)
    then show ?thesis using True i by (subst fullDiff_suffix.simps) simp
  qed
next
  case (Suc n)
  from Suc.hyps(2) have lt: "i < min (common_suffix_length oldText newText) stop" by arith
  then have "i < common_suffix_length oldText newText" "i < stop" by simp_all
  then have "rev oldText ! i = rev newText ! i"
    unfolding common_suffix_length_def by (intro lcp_nth)
  moreover have "i < length oldText" "i < length newText"
    using \<open>i < stop\<close> assms(2) by simp_all
  ultimately have same: "oldText ! (length oldText - i - 1) = newText ! (length newText - i - 1)"
    by (simp add: rev_nth)
  have "fullDiff_suffix oldText newText stop i end'
        = fullDiff_suffix oldText newText stop (i + 1) (end' - 1)"
    using same \<open>i < stop\<close> by (subst fullDiff_suffix.simps) simp
  also have "\<dots> = (end' - 1) - int (min (common_suffix_length oldText newText) stop - (i + 1))"
    using Suc.hyps(2) lt by (intro Suc.hyps(1)) simp_all
  also have "\<dots> = end' - int (min (common_suffix_length oldText newText) stop - i)"
    using lt by simp
  finally show ?case .
qed

lemma fullDiffTextChangeRange_expected:
  "fullDiffTextChangeRange oldText newText = expected_change_range oldText newText"
proof -
  define p where "p = common_prefix_length oldText newText"
  define m where "m = min (length oldText) (length newText)"
  define s where "s = min (common_suffix_length oldText newText) (m - p)"
  have p_le: "p \<le> m"
    unfolding p_def m_def common_prefix_length_def by (rule lcp_length_le)
  have skip: "fullDiffTextChangeRange oldText newText = fullDiff_loop oldText newText p"
    unfolding fullDiffTextChangeRange_def p_def by (rule fullDiff_loop_skip) simp
  show ?thesis
  proof (cases "p < m")
    case False
    then have "\<not> p < min (length oldText) (length newText)"
      by (simp add: m_def)
    then have "fullDiff_loop oldText newText p = None"
      by (subst fullDiff_loop.simps) (simp only: Let_def if_False simp_thms)
    with False show ?thesis
      by (simp add: skip expected_change_range_def Let_def p_def m_def)
  next
    case True
    have diff: "oldText ! p \<noteq> newText ! p"
      using True lcp_mismatch [of oldText newText]
      by (simp add: p_def m_def common_prefix_length_def)
    have "m - p \<le> min (length oldText) (length newText)"
      unfolding m_def by arith
    then have "fullDiff_suffix oldText newText (m - p) 0 (int (length oldText))
               = int (length oldText)
                 - int (min (common_suffix_length oldText newText) (m - p) - 0)"
      by (intro fullDiff_suffix_count) simp_all
    then have suffix: "fullDiff_suffix oldText newText (m - p) 0 (int (length oldText))
                  = int (length oldText) - int s"
      by (simp add: s_def)
    have s_le: "s \<le> m - p" by (simp add: s_def)
    have nonneg: "\<not> int (length oldText) - int s - int p
                     + (int (length newText) - int (length oldText)) < 0"
      using s_le True unfolding m_def by arith
    have True': "p < min (length oldText) (length newText)"
      using True by (simp only: m_def)
    have "fullDiff_loop oldText newText p =
            Some \<lparr> tcr_span = \<lparr> ts_start = int p,
                                 ts_length = int (length oldText) - int s - int p \<rparr>,
                   tcr_newLength = int (length oldText) - int s - int p
                                   + (int (length newText) - int (length oldText)) \<rparr>"
      by (subst fullDiff_loop.simps)
         (simp only: Let_def True' diff nonneg suffix [unfolded m_def] if_True if_False
            simp_thms)
    moreover have "expected_change_range oldText newText =
            Some \<lparr> tcr_span = \<lparr> ts_start = int p,
                                 ts_length = int (length oldText) - int s - int p \<rparr>,
                   tcr_newLength = int (length newText) - int p - int s \<rparr>"
      unfolding expected_change_range_def Let_def p_def [symmetric]
      by (simp only: True' if_True s_def m_def)
    ultimately show ?thesis
      by (simp add: skip)
  qed
qed

lemma getText_whole: "getText this 0 (getLength this) = snap_newText this"
  by (simp add: getText_def getLength_def js_slice_def)

text \<open>
  Claim C8, amended: let \<open>prefixLen\<close> be the length of the longest common prefix of the
  two texts, and \<open>suffixLen\<close> the length of their longest common suffix, cut down to
  \<open>min(oldLen, newLen) - prefixLen\<close>. When the texts differ at an index below both
  lengths, \<open>getChangeRange\<close> on the snapshot for \<open>newText\<close>, given the snapshot for
  \<open>oldText\<close>, returns the span starting at \<open>prefixLen\<close> with length
  \<open>(oldLen - suffixLen) - prefixLen\<close> and \<open>newLength = newLen - prefixLen - suffixLen\<close>;
  when one text is a prefix of the other (equal texts included) it returns undefined. A
  second call gives the same.
\<close>

theorem getChangeRange_diff:
  assumes "snap_newText (snapshots st oldSnapshot) = oldText"
    and "snap_newText (snapshots st this) = newText"
    and "snap_changeRanges (snapshots st this) oldSnapshot = None"
  shows "fst (getChangeRange this oldSnapshot st) = expected_change_range oldText newText
         \<and> fst (getChangeRange this oldSnapshot (snd (getChangeRange this oldSnapshot st)))
             = expected_change_range oldText newText"
  using assms
  by (simp add: getChangeRange_def Let_def getText_whole fullDiffTextChangeRange_expected)

lemma two_snapshots_facts:
  "snap_newText (snapshots (two_snapshots oldText newText) 0) = oldText"
  "snap_newText (snapshots (two_snapshots oldText newText) (Suc 0)) = newText"
  "snap_changeRanges (snapshots (two_snapshots oldText newText) (Suc 0)) 0 = None"
  by (simp_all add: two_snapshots_def Snap_def empty_store_def Let_def)

lemma lengths_hello:
  "common_prefix_length ''hello world'' ''hello there world'' = 6"
  "common_suffix_length ''hello world'' ''hello there world'' = 6"
  by (simp_all add: common_prefix_length_def common_suffix_length_def)

theorem getChangeRange_diff_witness:
  "snap_newText (snapshots (two_snapshots ''hello world'' ''hello there world'') 0)
     = ''hello world''
   \<and> snap_newText (snapshots (two_snapshots ''hello world'' ''hello there world'') (Suc 0))
     = ''hello there world''
   \<and> snap_changeRanges (snapshots (two_snapshots ''hello world'' ''hello there world'') (Suc 0)) 0
     = None
   \<and> fst (getChangeRange (Suc 0) 0 (two_snapshots ''hello world'' ''hello there world''))
     = Some \<lparr> tcr_span = \<lparr> ts_start = 6, ts_length = 0 \<rparr>, tcr_newLength = 6 \<rparr>"
  using getChangeRange_diff [OF two_snapshots_facts, of "''hello world''" "''hello there world''"]
  by (simp add: two_snapshots_facts expected_change_range_def lengths_hello)

text \<open>
  Claim C8, as the source has it. For \<open>abc\<close> and \<open>abcd\<close> the claim gives the span
  \<open>(3, 0)\<close> with new length 1; \<open>fullDiffTextChangeRange\<close> finds no differing index
  below the shorter length and returns undefined. For \<open>aba\<close> and \<open>abba\<close> the longest
  common prefix and suffix both have length 2, which gives the span length -1; the
  source stops the suffix at the prefix and returns the span \<open>(2, 0)\<close> with new length 1.
\<close>

theorem getChangeRange_counterexample:
  "fst (getChangeRange (Suc 0) 0 (two_snapshots ''abc'' ''abcd'')) = None
   \<and> common_prefix_length ''abc'' ''abcd'' = 3 \<and> common_suffix_length ''abc'' ''abcd'' = 0
   \<and> fst (getChangeRange (Suc 0) 0 (two_snapshots ''aba'' ''abba''))
       = Some \<lparr> tcr_span = \<lparr> ts_start = 2, ts_length = 0 \<rparr>, tcr_newLength = 1 \<rparr>
   \<and> common_prefix_length ''aba'' ''abba'' = 2 \<and> common_suffix_length ''aba'' ''abba'' = 2"
  by (simp add: getChangeRange_def Let_def getText_whole fullDiffTextChangeRange_expected
      two_snapshots_facts expected_change_range_def common_prefix_length_def
      common_suffix_length_def)

section \<open>Rendering and parsing again\<close>

lemma split_on_not_Nil [simp]: "split_on sep s \<noteq> []"
  by (induction s) (auto split: list.splits)

lemma split_on_no_sep: "sep \<notin> set x \<Longrightarrow> split_on sep x = [x]"
  by (induction x) auto

lemma split_on_append_sep:
  "sep \<notin> set x \<Longrightarrow> split_on sep (x @ sep # rest) = x # split_on sep rest"
  by (induction x) (auto split: list.splits)

lemma split_on_js_join:
  "xs \<noteq> [] \<Longrightarrow> \<forall>x\<in>set xs. sep \<notin> set x \<Longrightarrow> split_on sep (js_join [sep] xs) = xs"
proof (induction xs rule: induct_list012)
  case 1
  then show ?case by simp
next
  case (2 x)
  then show ?case by (simp add: split_on_no_sep)
next
  case (3 x y zs)
  then show ?case by (simp add: split_on_append_sep)
qed

lemma set_js_join: "set (js_join sep xs) \<subseteq> set sep \<union> \<Union> (set ` set xs)"
  by (induction sep xs rule: js_join.induct) auto

lemma js_join_not_Nil: "xs \<noteq> [] \<Longrightarrow> \<forall>x\<in>set xs. x \<noteq> [] \<Longrightarrow> js_join sep xs \<noteq> []"
  by (induction sep xs rule: js_join.induct) auto

lemma set_vlq_digits: "set (vlq_digits n) \<subseteq> set BASE64_CHARS"
proof (induction n rule: vlq_digits.induct)
  case (1 n)
  show ?case
  proof (cases "n < 32")
    case True
    then have "BASE64_CHARS ! n \<in> set BASE64_CHARS"
      by (intro nth_mem) (simp add: length_BASE64_CHARS)
    with True show ?thesis by (subst vlq_digits.simps) simp
  next
    case False
    have "BASE64_CHARS ! (n mod 32 + 32) \<in> set BASE64_CHARS"
      by (intro nth_mem) (simp add: length_BASE64_CHARS)
    with False "1.IH" show ?thesis by (subst vlq_digits.simps) simp
  qed
qed

lemma vlq_of_chars: "set (vlq_of v) \<subseteq> set BASE64_CHARS" "vlq_of v \<noteq> []"
  by (simp_all add: vlq_of_def set_vlq_digits vlq_digits_not_Nil)

lemma separators_not_base64:
  "CHR '','' \<notin> set BASE64_CHARS" "CHR '';'' \<notin> set BASE64_CHARS"
  by (simp_all add: BASE64_CHARS_def)

lemma decodeVLQ_one:
  assumes "\<bar>a\<bar> < 1073741824"
  shows "decodeVLQ (vlq_of a) = Inr [a]"
  using decodeVLQ_loop_vlq_of [OF assms, of "[]" "[]"] by (simp add: decodeVLQ_def)

lemma decodeVLQ_four:
  assumes "\<bar>a\<bar> < 1073741824" "\<bar>b\<bar> < 1073741824" "\<bar>c\<bar> < 1073741824" "\<bar>d\<bar> < 1073741824"
  shows "decodeVLQ (vlq_of a @ vlq_of b @ vlq_of c @ vlq_of d) = Inr [a, b, c, d]"
proof -
  have "decodeVLQ_loop (vlq_of a @ vlq_of b @ vlq_of c @ vlq_of d) []
        = decodeVLQ_loop (vlq_of b @ vlq_of c @ vlq_of d) [a]"
    using decodeVLQ_loop_vlq_of [OF assms(1), of "vlq_of b @ vlq_of c @ vlq_of d" "[]"] by simp
  also have "\<dots> = decodeVLQ_loop (vlq_of c @ vlq_of d) [a, b]"
    using decodeVLQ_loop_vlq_of [OF assms(2), of "vlq_of c @ vlq_of d" "[a]"] by simp
  also have "\<dots> = decodeVLQ_loop (vlq_of d) [a, b, c]"
    using decodeVLQ_loop_vlq_of [OF assms(3), of "vlq_of d" "[a, b]"] by simp
  also have "\<dots> = decodeVLQ_loop [] [a, b, c, d]"
    using decodeVLQ_loop_vlq_of [OF assms(4), of "[]" "[a, b, c]"] by simp
  finally show ?thesis by (simp add: decodeVLQ_def)
qed

lemma entry_roundtrip:
  assumes "seg_in_range e" "position_in_range st"
  shows "\<exists>s st'. renderMappings_entry e st = Some (s, st')
           \<and> parseWithLines_entry s st = Inr (e, st')
           \<and> s \<noteq> [] \<and> set s \<subseteq> set BASE64_CHARS \<and> position_in_range st'"
proof (cases e)
  case (Seg1 d)
  with assms(1) have d: "\<bar>d\<bar> < 1073741824" by simp
  have "renderMappings_entry e st = Some (vlq_of d, st)"
    by (simp add: Seg1 encodeVlq_vlq_of [OF d])
  moreover have "parseWithLines_entry (vlq_of d) st = Inr (e, st)"
    by (simp add: parseWithLines_entry_def decodeVLQ_one [OF d] Seg1)
  ultimately show ?thesis
    using assms(2) vlq_of_chars [of d] by simp
next
  case (Seg4 d f l c)
  obtain pl pc where st: "st = (pl, pc)" by (cases st)
  from assms Seg4 st have b: "\<bar>d\<bar> < 1073741824" "\<bar>f\<bar> < 1073741824"
      "\<bar>l - pl\<bar> < 1073741824" "\<bar>c - pc\<bar> < 1073741824"
    by (auto simp: position_in_range_def)
  let ?s = "vlq_of d @ vlq_of f @ vlq_of (l - pl) @ vlq_of (c - pc)"
  have "renderMappings_entry e st = Some (?s, (l, c))"
    by (simp add: Seg4 st Let_def encodeVlq_vlq_of b)
  moreover have "parseWithLines_entry ?s st = Inr (e, (l, c))"
    by (simp add: parseWithLines_entry_def decodeVLQ_four [OF b] Seg4 st Let_def)
  moreover have "position_in_range (l, c)"
    using assms(1) Seg4 by (simp add: position_in_range_def)
  moreover have "?s \<noteq> []" "set ?s \<subseteq> set BASE64_CHARS"
    using vlq_of_chars by simp_all
  ultimately show ?thesis by blast
next
  case (Seg5 d f l c n)
  with assms(1) show ?thesis by simp
qed

lemma line_roundtrip:
  "list_all seg_in_range line \<Longrightarrow> position_in_range st \<Longrightarrow>
   \<exists>ss st'. renderMappings_line line st = Some (ss, st')
     \<and> parseWithLines_line ss st = Inr (line, st')
     \<and> length ss = length line
     \<and> (\<forall>s\<in>set ss. s \<noteq> [] \<and> set s \<subseteq> set BASE64_CHARS)
     \<and> position_in_range st'"
proof (induction line arbitrary: st)
  case Nil
  then show ?case by simp
next
  case (Cons e es)
  from Cons.prems have e: "seg_in_range e" and es: "list_all seg_in_range es" by simp_all
  from entry_roundtrip [OF e Cons.prems(2)]
  obtain s st1 where s: "renderMappings_entry e st = Some (s, st1)"
      "parseWithLines_entry s st = Inr (e, st1)" "s \<noteq> []" "set s \<subseteq> set BASE64_CHARS"
      "position_in_range st1"
    by blast
  from Cons.IH [OF es s(5)]
  obtain ss st2 where ss: "renderMappings_line es st1 = Some (ss, st2)"
      "parseWithLines_line ss st1 = Inr (es, st2)" "length ss = length es"
      "\<forall>s\<in>set ss. s \<noteq> [] \<and> set s \<subseteq> set BASE64_CHARS" "position_in_range st2"
    by blast
  have "renderMappings_line (e # es) st = Some (s # ss, st2)"
    by (simp add: s(1) ss(1))
  moreover have "parseWithLines_line (s # ss) st = Inr (e # es, st2)"
    by (simp add: s(2) ss(2))
  ultimately show ?case
    using s(3,4) ss(3,4,5) by (intro exI [of _ "s # ss"] exI [of _ st2]) simp
qed

lemma rendered_line_parses:
  assumes "parseWithLines_line ss st = Inr (line, st')" "length ss = length line"
    and "\<forall>s\<in>set ss. s \<noteq> [] \<and> set s \<subseteq> set BASE64_CHARS"
  shows "(if length (js_join '','' ss) = 0 then Inr ([], st)
          else parseWithLines_line (split_on CHR '','' (js_join '','' ss)) st)
         = Inr (line, st')"
    and "CHR '';'' \<notin> set (js_join '','' ss)"
proof -
  have nosep: "\<forall>s\<in>set ss. CHR '','' \<notin> set s" "\<forall>s\<in>set ss. CHR '';'' \<notin> set s"
    using assms(3) separators_not_base64 by blast+
  show "CHR '';'' \<notin> set (js_join '','' ss)"
    using set_js_join [of "'',''" ss] nosep(2) by auto
  show "(if length (js_join '','' ss) = 0 then Inr ([], st)
          else parseWithLines_line (split_on CHR '','' (js_join '','' ss)) st)
         = Inr (line, st')"
  proof (cases "ss = []")
    case True
    with assms(1,2) show ?thesis by simp
  next
    case False
    then have "js_join '','' ss \<noteq> []"
      using assms(3) by (intro js_join_not_Nil) simp_all
    moreover have "split_on CHR '','' (js_join '','' ss) = ss"
      using False nosep(1) by (rule split_on_js_join)
    ultimately show ?thesis using assms(1) by simp
  qed
qed

lemma lines_roundtrip:
  "list_all (list_all seg_in_range) ls \<Longrightarrow> position_in_range st \<Longrightarrow>
   \<exists>rs. renderMappings_lines (map Some ls) st = Some (Inr rs)
     \<and> parseWithLines_lines rs st = Inr ls
     \<and> length rs = length ls
     \<and> (\<forall>r\<in>set rs. CHR '';'' \<notin> set r)"
proof (induction ls arbitrary: st)
  case Nil
  then show ?case by simp
next
  case (Cons line rest)
  from Cons.prems have l: "list_all seg_in_range line"
    and r: "list_all (list_all seg_in_range) rest" by simp_all
  from line_roundtrip [OF l Cons.prems(2)]
  obtain ss st1 where ss: "renderMappings_line line st = Some (ss, st1)"
      "parseWithLines_line ss st = Inr (line, st1)" "length ss = length line"
      "\<forall>s\<in>set ss. s \<noteq> [] \<and> set s \<subseteq> set BASE64_CHARS" "position_in_range st1"
    by blast
  from Cons.IH [OF r ss(5)]
  obtain rs where rs: "renderMappings_lines (map Some rest) st1 = Some (Inr rs)"
      "parseWithLines_lines rs st1 = Inr rest" "length rs = length rest"
      "\<forall>r\<in>set rs. CHR '';'' \<notin> set r"
    by blast
  note p = rendered_line_parses [OF ss(2,3,4)]
  have "renderMappings_lines (map Some (line # rest)) st = Some (Inr (js_join '','' ss # rs))"
    by (simp add: ss(1) rs(1))
  moreover have "parseWithLines_lines (js_join '','' ss # rs) st = Inr (line # rest)"
    by (simp only: parseWithLines_lines.simps p(1)) (simp add: rs(2))
  ultimately show ?case
    using rs(3,4) p(2) by (intro exI [of _ "js_join '','' ss # rs"]) simp
qed

lemma parseWithLines_lines_length:
  "parseWithLines_lines xs st = Inr ls \<Longrightarrow> length ls = length xs"
proof (induction xs arbitrary: st ls)
  case Nil
  then show ?case by simp
next
  case (Cons x xs)
  then show ?case
    by (auto split: sum.splits if_splits)
qed

text \<open>
  Claim C3, amended: let the mappings of a map document parse to the resolved lines
  \<open>ls\<close>, let every entry of \<open>ls\<close> have length 1 or 4, its generated-column delta and
  file index be below \<open>2\<^sup>3\<^sup>0\<close> in magnitude and its source line and column lie in
  \<open>[0, 2\<^sup>3\<^sup>0)\<close>. Then \<open>renderMappings\<close> on these lines returns a string, and parsing
  that string (as the mappings of any document) yields the lines \<open>ls\<close> again.
\<close>

theorem render_parse_roundtrip:
  assumes "parseWithLines rt b = Inr (M, ls)"
    and "list_all (list_all seg_in_range) ls"
    and "sm_lines sm = map Some ls"
  shows "\<exists>s. renderMappings sm = Some (Inr s)
           \<and> parseWithLines_lines (split_on CHR '';'' s) (0, 0) = Inr ls
           \<and> (\<forall>b' M'. rt_parse_base64 rt b' = Inr M' \<and> json_mappings M' = s
                 \<longrightarrow> parseWithLines rt b' = Inr (M', ls))"
proof -
  from assms(1) have "parseWithLines_lines (split_on CHR '';'' (json_mappings M)) (0, 0) = Inr ls"
    by (auto simp: parseWithLines_def split: sum.splits)
  then have "length ls = length (split_on CHR '';'' (json_mappings M))"
    by (rule parseWithLines_lines_length)
  then have ne: "ls \<noteq> []" by auto
  have "position_in_range (0, 0)" by (simp add: position_in_range_def)
  from lines_roundtrip [OF assms(2) this]
  obtain rs where rs: "renderMappings_lines (map Some ls) (0, 0) = Some (Inr rs)"
      "parseWithLines_lines rs (0, 0) = Inr ls" "length rs = length ls"
      "\<forall>r\<in>set rs. CHR '';'' \<notin> set r"
    by blast
  from ne rs(3) have "rs \<noteq> []" by auto
  then have split: "split_on CHR '';'' (js_join '';'' rs) = rs"
    using rs(4) by (rule split_on_js_join)
  have "renderMappings sm = Some (Inr (js_join '';'' rs))"
    by (simp add: renderMappings_def assms(3) rs(1))
  moreover have "parseWithLines_lines (split_on CHR '';'' (js_join '';'' rs)) (0, 0) = Inr ls"
    by (simp only: split rs(2))
  ultimately show ?thesis
    by (auto simp: parseWithLines_def)
qed

lemma decodeVLQ_AAAAA: "decodeVLQ ''AAAAA'' = Inr [0, 0, 0, 0, 0]"
  using decodeVLQ_loop_vlq_of [of 0 "''AAAA''" "[]"]
        decodeVLQ_loop_vlq_of [of 0 "''AAA''" "[0]"]
        decodeVLQ_loop_vlq_of [of 0 "''AA''" "[0, 0]"]
        decodeVLQ_loop_vlq_of [of 0 "''A''" "[0, 0, 0]"]
        decodeVLQ_loop_vlq_of [of 0 "[]" "[0, 0, 0, 0]"]
  by (simp add: vlq_of_0 decodeVLQ_def del: decodeVLQ_loop.simps(2))

lemma decodeVLQ_A: "decodeVLQ ''A'' = Inr [0]"
  using decodeVLQ_loop_vlq_of [of 0 "[]" "[]"]
  by (simp add: vlq_of_0 decodeVLQ_def del: decodeVLQ_loop.simps(2))

text \<open>
  Claim C3, as the source has it. The claim admits entries of length 5; the mappings
  \<open>AAAAA\<close> parse to one named entry, which \<open>renderMappings\<close> writes with its first
  number only, as \<open>A\<close>, and \<open>A\<close> parses to an unmapped entry.
\<close>

theorem render_parse_named_counterexample:
  "map_sum id snd (parseWithLines (fixed_document_runtime ''AAAAA'') [])
     = Inr [[Seg5 0 0 0 0 0]]
   \<and> renderMappings ((new_SourceMap [])\<lparr> sm_lines := [Some [Seg5 0 0 0 0 0]] \<rparr>)
       = Some (Inr ''A'')
   \<and> map_sum id snd (parseWithLines (fixed_document_runtime ''A'') []) = Inr [[Seg1 0]]"
  by (simp add: parseWithLines_def fixed_document_runtime_def parseWithLines_entry_def
      decodeVLQ_AAAAA decodeVLQ_A renderMappings_def encodeVlq_0)

theorem render_parse_roundtrip_witness:
  "parseWithLines (fixed_document_runtime ''AAAA,EAAE'') []
     = Inr (\<lparr> json_version = 3, json_file = [], json_sources = [],
              json_mappings = ''AAAA,EAAE'', json_names = [], json_sourcesContent = [] \<rparr>,
            [[Seg4 0 0 0 0, Seg4 2 0 0 2]])
   \<and> list_all (list_all seg_in_range) [[Seg4 0 0 0 0, Seg4 2 0 0 2]]
   \<and> sm_lines ((new_SourceMap [])\<lparr> sm_lines := [Some [Seg4 0 0 0 0, Seg4 2 0 0 2]] \<rparr>)
       = map Some [[Seg4 0 0 0 0, Seg4 2 0 0 2]]
   \<and> (\<exists>s. renderMappings
               ((new_SourceMap [])\<lparr> sm_lines := [Some [Seg4 0 0 0 0, Seg4 2 0 0 2]] \<rparr>)
             = Some (Inr s)
          \<and> parseWithLines_lines (split_on CHR '';'' s) (0, 0)
             = Inr [[Seg4 0 0 0 0, Seg4 2 0 0 2]]
          \<and> (\<forall>b' M'. rt_parse_base64 (fixed_document_runtime ''AAAA,EAAE'') b' = Inr M'
                  \<and> json_mappings M' = s
                \<longrightarrow> parseWithLines (fixed_document_runtime ''AAAA,EAAE'') b'
                    = Inr (M', [[Seg4 0 0 0 0, Seg4 2 0 0 2]])))"
proof -
  have h1: "parseWithLines (fixed_document_runtime ''AAAA,EAAE'') []
     = Inr (\<lparr> json_version = 3, json_file = [], json_sources = [],
              json_mappings = ''AAAA,EAAE'', json_names = [], json_sourcesContent = [] \<rparr>,
            [[Seg4 0 0 0 0, Seg4 2 0 0 2]])"
    by (simp add: parseWithLines_def fixed_document_runtime_def parseWithLines_entry_def
        decodeVLQ_AAAA decodeVLQ_EAAE)
  have h2: "list_all (list_all seg_in_range) [[Seg4 0 0 0 0, Seg4 2 0 0 2]]"
    by simp
  have h3: "sm_lines ((new_SourceMap [])\<lparr> sm_lines := [Some [Seg4 0 0 0 0, Seg4 2 0 0 2]] \<rparr>)
       = map Some [[Seg4 0 0 0 0, Seg4 2 0 0 2]]"
    by simp
  from render_parse_roundtrip [OF h1 h2 h3] h1 h2 h3
  show ?thesis by (simp only: simp_thms)
qed

section \<open>Holes in the lines of a map\<close>

text \<open>
  A map whose \<open>line\<close> is 2 while \<open>lines\<close> has one line, as after \<open>remap\<close> replaced
  three lines by one: \<open>updateSourceMap("\nz")\<close> writes line 3 and leaves holes at 1
  and 2, on which \<open>renderMappings\<close> throws.
\<close>

lemma updateSourceMap_leaves_holes:
  "map_sum id sm_lines
     (updateSourceMap (LF # ''z'') None 0 ((new_SourceMap [])\<lparr> sm_line := 2 \<rparr>))
     = Inr [Some [], None, None, Some []]
   \<and> renderMappings ((new_SourceMap [])\<lparr> sm_lines := [Some [], None, None, Some []] \<rparr>)
       = Some (Inl TypeError)"
  by (simp add: updateSourceMap_def new_SourceMap_def set_line_def push_entry_def
      renderMappings_def Let_def CR_def LF_def numeral_2_eq_2)

section \<open>Remap without an inline map\<close>

lemma entry_renders:
  assumes "seg_encodable e" "position_in_range st"
  shows "\<exists>s st'. renderMappings_entry e st = Some (s, st') \<and> position_in_range st'"
proof (cases e)
  case (Seg1 d)
  with assms show ?thesis by (simp add: encodeVlq_vlq_of)
next
  case (Seg4 d f l c)
  obtain pl pc where st: "st = (pl, pc)" by (cases st)
  from assms Seg4 st have b: "\<bar>d\<bar> < 1073741824" "\<bar>f\<bar> < 1073741824"
      "\<bar>l - pl\<bar> < 1073741824" "\<bar>c - pc\<bar> < 1073741824"
    by (auto simp: position_in_range_def)
  have "renderMappings_entry e st
        = Some (vlq_of d @ vlq_of f @ vlq_of (l - pl) @ vlq_of (c - pc), (l, c))"
    by (simp add: Seg4 st Let_def encodeVlq_vlq_of b)
  moreover have "position_in_range (l, c)"
    using assms(1) Seg4 by (simp add: position_in_range_def)
  ultimately show ?thesis by blast
next
  case (Seg5 d f l c n)
  with assms show ?thesis by (simp add: encodeVlq_vlq_of)
qed

lemma line_renders:
  "list_all seg_encodable line \<Longrightarrow> position_in_range st \<Longrightarrow>
   \<exists>ss st'. renderMappings_line line st = Some (ss, st') \<and> position_in_range st'"
proof (induction line arbitrary: st)
  case Nil
  then show ?case by simp
next
  case (Cons e es)
  from Cons.prems have e: "seg_encodable e" and es: "list_all seg_encodable es" by simp_all
  from entry_renders [OF e Cons.prems(2)]
  obtain s st1 where s: "renderMappings_entry e st = Some (s, st1)" "position_in_range st1"
    by blast
  from Cons.IH [OF es s(2)]
  obtain ss st2 where ss: "renderMappings_line es st1 = Some (ss, st2)" "position_in_range st2"
    by blast
  have "renderMappings_line (e # es) st = Some (s # ss, st2)"
    by (simp add: s(1) ss(1))
  with ss(2) show ?case by blast
qed

lemma lines_render:
  "list_all (list_all seg_encodable) ls \<Longrightarrow> position_in_range st \<Longrightarrow>
   \<exists>rs. renderMappings_lines (map Some ls) st = Some (Inr rs)"
proof (induction ls arbitrary: st)
  case Nil
  then show ?case by simp
next
  case (Cons line rest)
  from Cons.prems have l: "list_all seg_encodable line"
    and r: "list_all (list_all seg_encodable) rest" by simp_all
  from line_renders [OF l Cons.prems(2)]
  obtain ss st1 where ss: "renderMappings_line line st = Some (ss, st1)" "position_in_range st1"
    by blast
  from Cons.IH [OF r ss(2)]
  obtain rs where rs: "renderMappings_lines (map Some rest) st1 = Some (Inr rs)"
    by blast
  have "renderMappings_lines (map Some (line # rest)) st = Some (Inr (js_join '','' ss # rs))"
    by (simp add: ss(1) rs)
  then show ?case by blast
qed

lemma smRegexp_exec_x: "smRegexp_exec ''x=1'' = None"
  by (simp add: smRegexp_at_def strip_newline_def CR_def LF_def)

lemma encodeVlq_2_30: "encodeVlq 1073741824 = None"
  by (rule encodeVlq_out_of_range) simp_all

text \<open>
  Claim C10, as the source has it. The claim lets \<open>remap\<close> return for every upstream map.
  On the code \<open>x=1\<close>, which has no inline map comment, and an upstream map whose one
  entry has the generated-column delta \<open>2\<^sup>3\<^sup>0\<close>, \<open>remap\<close> calls \<open>comment\<close>, thus
  \<open>renderMappings\<close>, thus \<open>encodeVlq\<close> of \<open>2\<^sup>3\<^sup>0\<close>, which does not return.
\<close>

theorem remap_out_of_range_counterexample:
  "smRegexp_exec ''x=1'' = None
   \<and> remap plain_runtime ''x=1''
        ((new_SourceMap [])\<lparr> sm_lines := [Some [Seg1 1073741824]] \<rparr>) ''a.civet'' ''a.ts''
       = None"
proof -
  have "remap plain_runtime ''x=1''
          ((new_SourceMap [])\<lparr> sm_lines := [Some [Seg1 1073741824]] \<rparr>) ''a.civet'' ''a.ts''
        = None"
    unfolding remap_def smRegexp_exec_x
    by (simp add: comment_def json_def renderMappings_def encodeVlq_2_30)
  with smRegexp_exec_x show ?thesis by (simp only: simp_thms)
qed

text \<open>
  Claim C10, amended: let the code have no trailing inline map comment that \<open>smRegexp\<close>
  matches, let the lines of the upstream map have no hole, and let every entry of them be
  one that \<open>renderMappings\<close> can write (generated-column delta below \<open>2\<^sup>3\<^sup>0\<close> in
  magnitude; for an entry of length 4 also the file index below \<open>2\<^sup>3\<^sup>0\<close> in magnitude and
  the source line and column in \<open>[0, 2\<^sup>3\<^sup>0)\<close>). Then \<open>renderMappings\<close> of the upstream
  map returns a string \<open>m\<close>, and \<open>remap\<close> neither parses nor composes: it returns the
  upstream map as it was, with the code as given, a newline and the comment
  \<open>//# sourceMappingURL=data:application/json;base64,\<close> followed by the encoding of the
  document with version 3, the target path as file, the source path as only source, the
  mappings \<open>m\<close>, no names and the source of the upstream map as only content. When the
  lines are not empty and have entries of length 1 and 4 only, the mappings \<open>m\<close> parse
  to the lines of the upstream map.
\<close>

theorem remap_without_inline_map:
  assumes "smRegexp_exec codeWithSourceMap = None"
    and "sm_lines upstreamMap = map Some ls"
    and "list_all (list_all seg_encodable) ls"
  shows "\<exists>m. renderMappings upstreamMap = Some (Inr m)
           \<and> remap rt codeWithSourceMap upstreamMap sourcePath targetPath
               = Some (Inr (codeWithSourceMap @ [LF]
                              @ ''//# sourceMappingURL=data:application/json;base64,''
                              @ rt_base64Encode rt (rt_stringify rt
                                  \<lparr> json_version = 3, json_file = targetPath,
                                    json_sources = [sourcePath], json_mappings = m,
                                    json_names = [],
                                    json_sourcesContent = [sm_source upstreamMap] \<rparr>),
                            upstreamMap))
           \<and> (ls \<noteq> [] \<and> list_all (list_all seg_in_range) ls
                \<longrightarrow> parseWithLines_lines (split_on CHR '';'' m) (0, 0) = Inr ls)"
proof -
  have p0: "position_in_range (0, 0)" by (simp add: position_in_range_def)
  from lines_render [OF assms(3) p0]
  obtain rs where rs: "renderMappings_lines (map Some ls) (0, 0) = Some (Inr rs)"
    by blast
  let ?m = "js_join '';'' rs"
  have render: "renderMappings upstreamMap = Some (Inr ?m)"
    by (simp add: renderMappings_def assms(2) rs)
  have result: "remap rt codeWithSourceMap upstreamMap sourcePath targetPath
               = Some (Inr (codeWithSourceMap @ [LF]
                              @ ''//# sourceMappingURL=data:application/json;base64,''
                              @ rt_base64Encode rt (rt_stringify rt
                                  \<lparr> json_version = 3, json_file = targetPath,
                                    json_sources = [sourcePath], json_mappings = ?m,
                                    json_names = [],
                                    json_sourcesContent = [sm_source upstreamMap] \<rparr>),
                            upstreamMap))"
    by (simp add: remap_def assms(1) comment_def json_def render)
  have parses: "ls \<noteq> [] \<Longrightarrow> list_all (list_all seg_in_range) ls \<Longrightarrow>
                parseWithLines_lines (split_on CHR '';'' ?m) (0, 0) = Inr ls"
  proof -
    assume ne: "ls \<noteq> []" and range: "list_all (list_all seg_in_range) ls"
    from lines_roundtrip [OF range p0]
    obtain rs' where rs': "renderMappings_lines (map Some ls) (0, 0) = Some (Inr rs')"
        "parseWithLines_lines rs' (0, 0) = Inr ls" "length rs' = length ls"
        "\<forall>r\<in>set rs'. CHR '';'' \<notin> set r"
      by blast
    from rs rs'(1) have eq: "rs' = rs" by simp
    from ne rs'(3) eq have "rs \<noteq> []" by auto
    then have "split_on CHR '';'' (js_join '';'' rs) = rs"
      using rs'(4) eq by (intro split_on_js_join) simp_all
    then show ?thesis using rs'(2) eq by simp
  qed
  from render result parses show ?thesis by blast
qed

theorem remap_without_inline_map_witness:
  "smRegexp_exec ''x=1'' = None
   \<and> sm_lines ((new_SourceMap ''abc'')\<lparr> sm_lines := [Some [Seg4 0 0 0 0, Seg4 2 0 0 2]] \<rparr>)
       = map Some [[Seg4 0 0 0 0, Seg4 2 0 0 2]]
   \<and> list_all (list_all seg_encodable) [[Seg4 0 0 0 0, Seg4 2 0 0 2]]
   \<and> [[Seg4 0 0 0 0, Seg4 2 0 0 2]] \<noteq> []
   \<and> list_all (list_all seg_in_range) [[Seg4 0 0 0 0, Seg4 2 0 0 2]]
   \<and> renderMappings
        ((new_SourceMap ''abc'')\<lparr> sm_lines := [Some [Seg4 0 0 0 0, Seg4 2 0 0 2]] \<rparr>)
       = Some (Inr ''AAAA,EAAE'')
   \<and> remap plain_runtime ''x=1''
        ((new_SourceMap ''abc'')\<lparr> sm_lines := [Some [Seg4 0 0 0 0, Seg4 2 0 0 2]] \<rparr>)
        ''a.civet'' ''a.ts''
       = Some (Inr (''x=1'' @ [LF]
                      @ ''//# sourceMappingURL=data:application/json;base64,''
                      @ ''a.ts a.civet AAAA,EAAE abc'',
                    (new_SourceMap ''abc'')\<lparr> sm_lines := [Some [Seg4 0 0 0 0, Seg4 2 0 0 2]] \<rparr>))
   \<and> parseWithLines_lines (split_on CHR '';'' ''AAAA,EAAE'') (0, 0)
       = Inr [[Seg4 0 0 0 0, Seg4 2 0 0 2]]"
proof -
  let ?U = "(new_SourceMap ''abc'')\<lparr> sm_lines := [Some [Seg4 0 0 0 0, Seg4 2 0 0 2]] \<rparr>"
  have h1: "smRegexp_exec ''x=1'' = None" by (rule smRegexp_exec_x)
  have h2: "sm_lines ?U = map Some [[Seg4 0 0 0 0, Seg4 2 0 0 2]]" by simp
  have h3: "list_all (list_all seg_encodable) [[Seg4 0 0 0 0, Seg4 2 0 0 2]]" by simp
  have h4: "[[Seg4 0 0 0 0, Seg4 2 0 0 2]] \<noteq> []" by simp
  have h5: "list_all (list_all seg_in_range) [[Seg4 0 0 0 0, Seg4 2 0 0 2]]" by simp
  have r: "renderMappings ?U = Some (Inr ''AAAA,EAAE'')"
    by (simp add: renderMappings_def encodeVlq_0 encodeVlq_2)
  have src: "sm_source ?U = ''abc''" by (simp add: new_SourceMap_def)
  from remap_without_inline_map [OF h1 h2 h3, of plain_runtime "''a.civet''" "''a.ts''"]
  obtain m where m: "renderMappings ?U = Some (Inr m)"
      "remap plain_runtime ''x=1'' ?U ''a.civet'' ''a.ts''
         = Some (Inr (''x=1'' @ [LF]
                        @ ''//# sourceMappingURL=data:application/json;base64,''
                        @ rt_base64Encode plain_runtime (rt_stringify plain_runtime
                            \<lparr> json_version = 3, json_file = ''a.ts'',
                              json_sources = [''a.civet''], json_mappings = m,
                              json_names = [],
                              json_sourcesContent = [sm_source ?U] \<rparr>),
                      ?U))"
      "[[Seg4 0 0 0 0, Seg4 2 0 0 2]] \<noteq> []
         \<and> list_all (list_all seg_in_range) [[Seg4 0 0 0 0, Seg4 2 0 0 2]]
       \<longrightarrow> parseWithLines_lines (split_on CHR '';'' m) (0, 0)
           = Inr [[Seg4 0 0 0 0, Seg4 2 0 0 2]]"
    by blast
  from m(1) r have eq: "m = ''AAAA,EAAE''" by simp
  have payload: "rt_base64Encode plain_runtime (rt_stringify plain_runtime
                   \<lparr> json_version = 3, json_file = ''a.ts'',
                     json_sources = [''a.civet''], json_mappings = ''AAAA,EAAE'',
                     json_names = [],
                     json_sourcesContent = [''abc''] \<rparr>)
                 = ''a.ts a.civet AAAA,EAAE abc''"
    by (simp add: plain_runtime_def)
  from m(2) have c7: "remap plain_runtime ''x=1'' ?U ''a.civet'' ''a.ts''
       = Some (Inr (''x=1'' @ [LF]
                      @ ''//# sourceMappingURL=data:application/json;base64,''
                      @ ''a.ts a.civet AAAA,EAAE abc'', ?U))"
    by (simp only: eq src payload)
  from m(3) h4 h5 have c8: "parseWithLines_lines (split_on CHR '';'' ''AAAA,EAAE'') (0, 0)
       = Inr [[Seg4 0 0 0 0, Seg4 2 0 0 2]]"
    by (simp only: eq simp_thms)
  from h1 h2 h3 h4 h5 r c7 c8 show ?thesis by (simp only: simp_thms)
qed

end
